theory Spec2Isabelle
  imports Complex_Main "HOL-Library.Word" "HOL-Library.Log_Nat"
begin

section \<open>JavaScript strings\<close>

text \<open>
  A JavaScript string is a sequence of UTF-16 code units. The string methods the
  program calls (\<^verbatim>\<open>split\<close>, \<^verbatim>\<open>trim\<close>, \<^verbatim>\<open>startsWith\<close>, \<^verbatim>\<open>replace\<close>,
  \<^verbatim>\<open>substring\<close>, \<^verbatim>\<open>join\<close>) all work on code units, so a string is modelled as a
  list of 16-bit words. \<open>js\<close> turns an ASCII literal into such a list.
\<close>

type_synonym code_unit = "16 word"
type_synonym js_string = "code_unit list"

definition js :: "string \<Rightarrow> js_string" where
  "js s = map of_char s"

text \<open>
  \<^verbatim>\<open>String.prototype.trim\<close> removes WhiteSpace and LineTerminator code points from
  both ends: TAB, LF, VT, FF, CR, SP, NBSP, U+1680, U+2000..U+200A, U+2028, U+2029,
  U+202F, U+205F, U+3000 and U+FEFF. All of them are single code units.
\<close>

definition isWhiteSpace :: "code_unit \<Rightarrow> bool" where
  "isWhiteSpace c \<longleftrightarrow>
     c = 0x9 \<or> c = 0xA \<or> c = 0xB \<or> c = 0xC \<or> c = 0xD \<or> c = 0x20 \<or> c = 0xA0 \<or>
     c = 0x1680 \<or> (0x2000 \<le> c \<and> c \<le> 0x200A) \<or> c = 0x2028 \<or> c = 0x2029 \<or>
     c = 0x202F \<or> c = 0x205F \<or> c = 0x3000 \<or> c = 0xFEFF"

definition trim :: "js_string \<Rightarrow> js_string" where
  "trim s = rev (dropWhile isWhiteSpace (rev (dropWhile isWhiteSpace s)))"

text \<open>\<^verbatim>\<open>s.startsWith(p)\<close>: the code units of \<open>p\<close> stand at position 0 of \<open>s\<close>.\<close>

definition startsWith :: "js_string \<Rightarrow> js_string \<Rightarrow> bool" where
  "startsWith s p \<longleftrightarrow> take (length p) s = p"

text \<open>\<^verbatim>\<open>s.substring(n)\<close> for \<open>0 \<le> n\<close>: the code units from position \<open>n\<close> on, the
  empty string when \<open>s\<close> is shorter.\<close>

definition substring :: "js_string \<Rightarrow> nat \<Rightarrow> js_string" where
  "substring s n = drop n s"

text \<open>
  \<^verbatim>\<open>s.replace(pat, rep)\<close> with a string pattern replaces the first occurrence of
  \<open>pat\<close> only, searching from position 0; without an occurrence the string is
  returned as it is. (The program's replacement is always the empty string, so
  the \<^verbatim>\<open>$\<close> patterns of a replacement string never arise.)
\<close>

fun replace :: "js_string \<Rightarrow> js_string \<Rightarrow> js_string \<Rightarrow> js_string" where
  "replace [] pat rep = (if pat = [] then rep else [])"
| "replace (c # cs) pat rep =
     (if startsWith (c # cs) pat then rep @ drop (length pat) (c # cs)
      else c # replace cs pat rep)"

text \<open>
  \<^verbatim>\<open>s.split(sep)\<close> for a separator of one code unit: the pieces between the
  occurrences of the separator, so one piece more than there are separators;
  the empty string gives the single piece \<^verbatim>\<open>''\<close>.
\<close>

fun split_at :: "code_unit \<Rightarrow> js_string \<Rightarrow> js_string list" where
  "split_at sep [] = [[]]"
| "split_at sep (c # cs) =
     (if c = sep then [] # split_at sep cs
      else (case split_at sep cs of
              [] \<Rightarrow> [[c]]
            | l # ls \<Rightarrow> (c # l) # ls))"

definition LF :: code_unit where
  "LF = 0xA"

text \<open>
  \<^verbatim>\<open>xs.join(sep)\<close> on an array of strings, as the language defines it: a loop over
  the indices that appends the separator before every element but the first.
\<close>

fun join_loop :: "js_string \<Rightarrow> js_string \<Rightarrow> nat \<Rightarrow> js_string list \<Rightarrow> js_string" where
  "join_loop sep R k [] = R"
| "join_loop sep R k (x # xs) =
     join_loop sep ((if 0 < k then R @ sep else R) @ x) (Suc k) xs"

definition join :: "js_string list \<Rightarrow> js_string \<Rightarrow> js_string" where
  "join xs sep = join_loop sep [] 0 xs"

section \<open>Document generation: \<^verbatim>\<open>generateWord\<close>\<close>

text \<open>
  The paragraphs of the \<^verbatim>\<open>docx\<close> library are modelled by the options the program
  passes to \<^verbatim>\<open>new Paragraph(...)\<close>; an option that is not passed is \<open>None\<close>.
\<close>

datatype HeadingLevel = HEADING_1 | HEADING_2 | HEADING_3

datatype TextRun = TextRun js_string

record Spacing =
  before :: "nat option"
  after :: "nat option"

record Paragraph =
  p_text :: "js_string option"
  p_children :: "TextRun list option"
  p_heading :: "HeadingLevel option"
  p_bullet :: "nat option"
  p_spacing :: "Spacing option"

text \<open>The six paragraph shapes of \<^verbatim>\<open>generateWord\<close>, in the order of the source.\<close>

definition Blank :: Paragraph where
  "Blank = \<lparr>p_text = None, p_children = Some [], p_heading = None, p_bullet = None,
            p_spacing = None\<rparr>"

definition Heading1 :: "js_string \<Rightarrow> Paragraph" where
  "Heading1 t = \<lparr>p_text = Some t, p_children = None, p_heading = Some HEADING_1,
                 p_bullet = None,
                 p_spacing = Some \<lparr>before = Some 240, after = Some 120\<rparr>\<rparr>"

definition Heading2 :: "js_string \<Rightarrow> Paragraph" where
  "Heading2 t = \<lparr>p_text = Some t, p_children = None, p_heading = Some HEADING_2,
                 p_bullet = None,
                 p_spacing = Some \<lparr>before = Some 200, after = Some 100\<rparr>\<rparr>"

definition Heading3 :: "js_string \<Rightarrow> Paragraph" where
  "Heading3 t = \<lparr>p_text = Some t, p_children = None, p_heading = Some HEADING_3,
                 p_bullet = None,
                 p_spacing = Some \<lparr>before = Some 180, after = Some 90\<rparr>\<rparr>"

definition BulletItem :: "js_string \<Rightarrow> Paragraph" where
  "BulletItem t = \<lparr>p_text = None, p_children = Some [TextRun t], p_heading = None,
                   p_bullet = Some 0, p_spacing = None\<rparr>"

definition TextParagraph :: "js_string \<Rightarrow> Paragraph" where
  "TextParagraph t = \<lparr>p_text = None, p_children = Some [TextRun t], p_heading = None,
                      p_bullet = None,
                      p_spacing = Some \<lparr>before = None, after = Some 120\<rparr>\<rparr>"

text \<open>\<^verbatim>\<open>new Paragraph("Document converted by Gemini PDF Pro")\<close>: the fallback of an
  empty list of children.\<close>

definition Placeholder :: Paragraph where
  "Placeholder = \<lparr>p_text = Some (js ''Document converted by Gemini PDF Pro''),
                  p_children = None, p_heading = None, p_bullet = None,
                  p_spacing = None\<rparr>"

text \<open>
  The body of \<^verbatim>\<open>lines.forEach(line => ...)\<close>: one call per line, on the array
  \<open>children\<close> built so far; the result is the array after the call.
\<close>

definition push_line :: "Paragraph list \<Rightarrow> js_string \<Rightarrow> Paragraph list" where
  "push_line children line =
     (let trimmed = trim line in
      if trimmed = [] \<and> 0 < length children then children @ [Blank]
      else if startsWith line (js ''# '') then
        children @ [Heading1 (replace line (js ''# '') [])]
      else if startsWith line (js ''## '') then
        children @ [Heading2 (replace line (js ''## '') [])]
      else if startsWith line (js ''### '') then
        children @ [Heading3 (replace line (js ''### '') [])]
      else if startsWith line (js ''- '') \<or> startsWith line (js ''* '') then
        children @ [BulletItem (substring line 2)]
      else children @ [TextParagraph line])"

definition generateWord_children :: "js_string \<Rightarrow> Paragraph list" where
  "generateWord_children markdownText =
     foldl push_line [] (split_at LF markdownText)"

text \<open>The children of the document's one section: the fallback replaces an empty
  list.\<close>

definition generateWord_section :: "js_string \<Rightarrow> Paragraph list" where
  "generateWord_section markdownText =
     (let children = generateWord_children markdownText in
      if 0 < length children then children else [Placeholder])"

section \<open>\<^verbatim>\<open>JSON.parse\<close>\<close>

text \<open>
  The values \<^verbatim>\<open>JSON.parse\<close> returns. A number is kept as the exact decimal its
  literal denotes, \<open>JNumber m e\<close> for \<open>m * 10 ^ e\<close>; the program never computes
  with a parsed number, it only tests one for truthiness. An object is the list of
  its properties; a repeated key overwrites the earlier value in place, as
  property definition does. (The program reads properties by name only, so the
  enumeration order of integer-like keys plays no role.)
\<close>

datatype js_value =
    JNull
  | JBool bool
  | JNumber int int
  | JString js_string
  | JArray "js_value list"
  | JObject "(js_string \<times> js_value) list"

text \<open>
  The parser follows the JSON grammar of ECMA-404 on code units: a recursive
  descent over values, array elements and object members. The recursion is on a
  fuel argument that every nested call decrements; \<open>JSON_parse\<close> starts it
  with \<open>2 * length text + 1\<close>, which is never used up (lemma
  \<open>parse_value_fuel\<close> below), so \<open>OutOfFuel\<close> is not a result of \<open>JSON_parse\<close>.
  \<open>Parsed v r\<close> is a value and the rest of the input behind it.
\<close>

datatype 'a parse_result = OutOfFuel | SyntaxError | Parsed 'a js_string

definition isJsonWhiteSpace :: "code_unit \<Rightarrow> bool" where
  "isJsonWhiteSpace c \<longleftrightarrow> c = 0x20 \<or> c = 0x9 \<or> c = 0xA \<or> c = 0xD"

definition skip_ws :: "js_string \<Rightarrow> js_string" where
  "skip_ws s = dropWhile isJsonWhiteSpace s"

definition isDigit :: "code_unit \<Rightarrow> bool" where
  "isDigit c \<longleftrightarrow> 0x30 \<le> c \<and> c \<le> 0x39"

definition hexValue :: "code_unit \<Rightarrow> nat option" where
  "hexValue c =
     (if 0x30 \<le> c \<and> c \<le> 0x39 then Some (unat c - 0x30)
      else if 0x41 \<le> c \<and> c \<le> 0x46 then Some (unat c - 0x41 + 10)
      else if 0x61 \<le> c \<and> c \<le> 0x66 then Some (unat c - 0x61 + 10)
      else None)"

definition hex4 :: "code_unit \<Rightarrow> code_unit \<Rightarrow> code_unit \<Rightarrow> code_unit \<Rightarrow> code_unit option" where
  "hex4 a b c d =
     (case (hexValue a, hexValue b, hexValue c, hexValue d) of
        (Some x, Some y, Some z, Some w) \<Rightarrow> Some (of_nat (((x * 16 + y) * 16 + z) * 16 + w))
      | _ \<Rightarrow> None)"

text \<open>The characters of a string literal behind its opening quote, up to the
  closing quote. A backslash with one of the eight escape characters, or with
  \<^verbatim>\<open>u\<close> and four hexadecimal digits, is decoded; an unescaped control character
  is an error.\<close>

definition simple_escape :: "code_unit \<Rightarrow> code_unit option" where
  "simple_escape e =
     (if e = 0x22 then Some 0x22
      else if e = 0x5C then Some 0x5C
      else if e = 0x2F then Some 0x2F
      else if e = 0x62 then Some 0x8
      else if e = 0x66 then Some 0xC
      else if e = 0x6E then Some 0xA
      else if e = 0x72 then Some 0xD
      else if e = 0x74 then Some 0x9
      else None)"

fun parse_string_chars :: "js_string \<Rightarrow> js_string \<Rightarrow> (js_string \<times> js_string) option" where
  "parse_string_chars [] acc = None"
| "parse_string_chars (c # cs) acc =
     (if c = 0x22 then Some (acc, cs)
      else if c = 0x5C then
        (case cs of
           [] \<Rightarrow> None
         | e # es \<Rightarrow>
             if e = 0x75 then
               (case es of
                  h1 # h2 # h3 # h4 # r \<Rightarrow>
                    (case hex4 h1 h2 h3 h4 of
                       None \<Rightarrow> None
                     | Some u \<Rightarrow> parse_string_chars r (acc @ [u]))
                | _ \<Rightarrow> None)
             else
               (case simple_escape e of
                  None \<Rightarrow> None
                | Some u \<Rightarrow> parse_string_chars es (acc @ [u])))
      else if c < 0x20 then None
      else parse_string_chars cs (acc @ [c]))"

definition digitsValue :: "js_string \<Rightarrow> nat" where
  "digitsValue ds = foldl (\<lambda>n c. 10 * n + (unat c - 0x30)) 0 ds"

text \<open>A number literal: an optional minus sign, the integer part (a single zero,
  or a nonzero digit and more digits), an optional fraction and an optional
  exponent.\<close>

definition parse_int_part :: "js_string \<Rightarrow> (js_string \<times> js_string) option" where
  "parse_int_part s =
     (case s of
        [] \<Rightarrow> None
      | c # cs \<Rightarrow>
          if c = 0x30 then Some ([c], cs)
          else if isDigit c then Some (c # takeWhile isDigit cs, dropWhile isDigit cs)
          else None)"

definition parse_frac_part :: "js_string \<Rightarrow> (js_string \<times> js_string) option" where
  "parse_frac_part s =
     (case s of
        c # cs \<Rightarrow>
          if c = 0x2E then
            (if takeWhile isDigit cs = [] then None
             else Some (takeWhile isDigit cs, dropWhile isDigit cs))
          else Some ([], s)
      | [] \<Rightarrow> Some ([], s))"

definition parse_exp_part :: "js_string \<Rightarrow> (int \<times> js_string) option" where
  "parse_exp_part s =
     (case s of
        c # cs \<Rightarrow>
          if c = 0x65 \<or> c = 0x45 then
            (let (neg, ds) = (case cs of
                                [] \<Rightarrow> (False, cs)
                              | d # r \<Rightarrow> if d = 0x2D then (True, r)
                                         else if d = 0x2B then (False, r)
                                         else (False, cs))
             in if takeWhile isDigit ds = [] then None
                else Some ((if neg then - int (digitsValue (takeWhile isDigit ds))
                            else int (digitsValue (takeWhile isDigit ds))),
                           dropWhile isDigit ds))
          else Some (0, s)
      | [] \<Rightarrow> Some (0, s))"

definition parse_number :: "js_string \<Rightarrow> (js_value \<times> js_string) option" where
  "parse_number s =
     (let (neg, s1) = (case s of c # cs \<Rightarrow> if c = 0x2D then (True, cs) else (False, s)
                                | [] \<Rightarrow> (False, s))
      in case parse_int_part s1 of
           None \<Rightarrow> None
         | Some (ip, s2) \<Rightarrow>
             (case parse_frac_part s2 of
                None \<Rightarrow> None
              | Some (fp, s3) \<Rightarrow>
                  (case parse_exp_part s3 of
                     None \<Rightarrow> None
                   | Some (ex, s4) \<Rightarrow>
                       Some (JNumber ((if neg then - 1 else 1) * int (digitsValue (ip @ fp)))
                                     (ex - int (length fp)), s4))))"

fun obj_put :: "(js_string \<times> js_value) list \<Rightarrow> js_string \<Rightarrow> js_value \<Rightarrow> (js_string \<times> js_value) list" where
  "obj_put [] k v = [(k, v)]"
| "obj_put ((k', v') # kvs) k v =
     (if k' = k then (k', v) # kvs else (k', v') # obj_put kvs k v)"

fun parse_value :: "nat \<Rightarrow> js_string \<Rightarrow> js_value parse_result"
  and parse_elements :: "nat \<Rightarrow> js_value list \<Rightarrow> js_string \<Rightarrow> js_value parse_result"
  and parse_members :: "nat \<Rightarrow> (js_string \<times> js_value) list \<Rightarrow> js_string \<Rightarrow> js_value parse_result"
where
  "parse_value 0 s = OutOfFuel"
| "parse_value (Suc n) s =
     (case skip_ws s of
        [] \<Rightarrow> SyntaxError
      | c # cs \<Rightarrow>
          if c = 0x5B then
            (case skip_ws cs of
               [] \<Rightarrow> SyntaxError
             | d # ds \<Rightarrow> if d = 0x5D then Parsed (JArray []) ds
                        else parse_elements n [] (d # ds))
          else if c = 0x7B then
            (case skip_ws cs of
               [] \<Rightarrow> SyntaxError
             | d # ds \<Rightarrow> if d = 0x7D then Parsed (JObject []) ds
                        else parse_members n [] (d # ds))
          else if c = 0x22 then
            (case parse_string_chars cs [] of
               None \<Rightarrow> SyntaxError
             | Some (str, r) \<Rightarrow> Parsed (JString str) r)
          else if startsWith (c # cs) (js ''true'') then Parsed (JBool True) (drop 4 (c # cs))
          else if startsWith (c # cs) (js ''false'') then Parsed (JBool False) (drop 5 (c # cs))
          else if startsWith (c # cs) (js ''null'') then Parsed JNull (drop 4 (c # cs))
          else
            (case parse_number (c # cs) of
               None \<Rightarrow> SyntaxError
             | Some (v, r) \<Rightarrow> Parsed v r))"
| "parse_elements 0 acc s = OutOfFuel"
| "parse_elements (Suc n) acc s =
     (case parse_value n s of
        OutOfFuel \<Rightarrow> OutOfFuel
      | SyntaxError \<Rightarrow> SyntaxError
      | Parsed v r \<Rightarrow>
          (case skip_ws r of
             [] \<Rightarrow> SyntaxError
           | c # cs \<Rightarrow>
               if c = 0x2C then parse_elements n (acc @ [v]) cs
               else if c = 0x5D then Parsed (JArray (acc @ [v])) cs
               else SyntaxError))"
| "parse_members 0 acc s = OutOfFuel"
| "parse_members (Suc n) acc s =
     (case skip_ws s of
        [] \<Rightarrow> SyntaxError
      | c # cs \<Rightarrow>
          if c = 0x22 then
            (case parse_string_chars cs [] of
               None \<Rightarrow> SyntaxError
             | Some (key, r) \<Rightarrow>
                 (case skip_ws r of
                    [] \<Rightarrow> SyntaxError
                  | d # ds \<Rightarrow>
                      if d = 0x3A then
                        (case parse_value n ds of
                           OutOfFuel \<Rightarrow> OutOfFuel
                         | SyntaxError \<Rightarrow> SyntaxError
                         | Parsed v r' \<Rightarrow>
                             (case skip_ws r' of
                                [] \<Rightarrow> SyntaxError
                              | e # es \<Rightarrow>
                                  if e = 0x2C then parse_members n (obj_put acc key v) es
                                  else if e = 0x7D then Parsed (JObject (obj_put acc key v)) es
                                  else SyntaxError))
                      else SyntaxError))
          else SyntaxError)"

text \<open>\<^verbatim>\<open>JSON.parse(text)\<close>: \<open>None\<close> stands for the SyntaxError it throws. Only
  white space may follow the value.\<close>

definition JSON_parse :: "js_string \<Rightarrow> js_value option" where
  "JSON_parse text =
     (case parse_value (2 * length text + 1) text of
        Parsed v r \<Rightarrow> if skip_ws r = [] then Some v else None
      | _ \<Rightarrow> None)"

section \<open>Table assembly\<close>

text \<open>
  Truthiness of a parsed value, as \<^verbatim>\<open>||\<close> tests it. A parsed number is falsy when
  the binary64 number nearest to it is zero: the literal denotes zero, or a value of
  magnitude at most \<open>2 ^ - 1075\<close>, half of the smallest positive binary64 number (a tie
  rounds to the even neighbour, zero).
\<close>

fun truthy :: "js_value \<Rightarrow> bool" where
  "truthy JNull = False"
| "truthy (JBool b) = b"
| "truthy (JNumber m e) =
     (m \<noteq> 0 \<and> (0 \<le> e \<or> 10 ^ nat (- e) < \<bar>m\<bar> * 2 ^ 1075))"
| "truthy (JString s) = (s \<noteq> [])"
| "truthy (JArray xs) = True"
| "truthy (JObject kvs) = True"

text \<open>
  \<^verbatim>\<open>v.tables\<close> on a parsed value: reading a property of \<^verbatim>\<open>null\<close> throws a TypeError
  (\<open>Inl ()\<close>); an object gives the property's value, or \<^verbatim>\<open>undefined\<close> (\<open>None\<close>)
  without such a property; a boolean, a number, a string and an array have no
  property of that name.
\<close>

fun get_tables :: "js_value \<Rightarrow> unit + js_value option" where
  "get_tables JNull = Inl ()"
| "get_tables (JObject kvs) = Inr (map_of kvs (js ''tables''))"
| "get_tables v = Inr None"

text \<open>
  The callback of \<^verbatim>\<open>pageResults.flatMap\<close> in \<^verbatim>\<open>startConversion\<close>:
  \<^verbatim>\<open>try { return JSON.parse(res).tables || []; } catch { return []; }\<close>.
  The empty array is \<open>JArray []\<close>.
\<close>

definition page_tables :: "js_string \<Rightarrow> js_value" where
  "page_tables res =
     (case JSON_parse res of
        None \<Rightarrow> JArray []
      | Some v \<Rightarrow>
          (case get_tables v of
             Inl _ \<Rightarrow> JArray []
           | Inr None \<Rightarrow> JArray []
           | Inr (Some t) \<Rightarrow> if truthy t then t else JArray []))"

text \<open>
  \<^verbatim>\<open>xs.flatMap(f)\<close>: the results of \<open>f\<close> in the order of \<open>xs\<close>, where a result that
  is an array contributes its elements (one level) and any other result
  contributes itself.
\<close>

definition flatMap :: "'a list \<Rightarrow> ('a \<Rightarrow> js_value) \<Rightarrow> js_value list" where
  "flatMap xs f =
     foldl (\<lambda>A x. case f x of JArray ys \<Rightarrow> A @ ys | v \<Rightarrow> A @ [v]) [] xs"

definition assembleTables :: "js_string list \<Rightarrow> js_value list" where
  "assembleTables pageResults = flatMap pageResults page_tables"

section \<open>The conversion run: \<^verbatim>\<open>startConversion\<close>\<close>

datatype ConversionTarget = WORD | EXCEL

text \<open>The string value of the enum, as a template literal prints it.\<close>

definition target_name :: "ConversionTarget \<Rightarrow> js_string" where
  "target_name t = (case t of WORD \<Rightarrow> js ''WORD'' | EXCEL \<Rightarrow> js ''EXCEL'')"

text \<open>
  A value read from a property or stored in one, as far as the program tells values
  apart: \<^verbatim>\<open>undefined\<close>, a string, or any other value, given by its truthiness and
  a number that identifies it.
\<close>

datatype js_prop = Undefined | StringValue js_string | OtherValue bool nat

text \<open>The field \<^verbatim>\<open>error\<close> is declared a string; at run time it holds whatever the
  \<^verbatim>\<open>catch\<close> block stores.\<close>

record ConversionStatus =
  step :: js_string
  progress :: int
  isProcessing :: bool
  error :: "js_prop option"

record DocumentPage =
  index :: nat
  dataUrl :: js_string

text \<open>
  Where the pages of a run come from. \<^verbatim>\<open>extractPagesAsImages\<close> renders the first
  \<^verbatim>\<open>Math.min(pdf.numPages, 10)\<close> pages of a document and skips a page whose canvas
  has no drawing context; the document is given by the rendering of each of its
  pages, \<open>None\<close> for a page without context. \<^verbatim>\<open>handleFileSelect\<close> stores these pages,
  or the one page of an image file (in the copy that accepts images).
\<close>

definition extractPagesAsImages :: "js_string option list \<Rightarrow> DocumentPage list" where
  "extractPagesAsImages rendered =
     concat (map (\<lambda>i. case rendered ! (i - 1) of
                         None \<Rightarrow> []
                       | Some url \<Rightarrow> [\<lparr>index = i, dataUrl = url\<rparr>])
               [1..<Suc (min (length rendered) 10)])"

datatype selected_file = PdfFile "js_string option list" | ImageFile js_string

definition selected_pages :: "selected_file \<Rightarrow> DocumentPage list" where
  "selected_pages f =
     (case f of
        PdfFile rendered \<Rightarrow> extractPagesAsImages rendered
      | ImageFile url \<Rightarrow> [\<lparr>index = 1, dataUrl = url\<rparr>])"

text \<open>
  A thrown value, by what reading \<^verbatim>\<open>err.message\<close> does. For \<^verbatim>\<open>null\<close> and
  \<^verbatim>\<open>undefined\<close> the read itself throws a TypeError (\<open>ThrownNullish\<close>; a value whose
  \<^verbatim>\<open>message\<close> is an accessor that throws behaves the same). For every other value
  it gives the value of the property, \<^verbatim>\<open>undefined\<close> without one (\<open>Thrown m\<close>).
\<close>

datatype js_error = ThrownNullish | Thrown (message: js_prop)

text \<open>\<^verbatim>\<open>{ tables?: TableData[]; markdown?: string }\<close>. The element type
  \<^verbatim>\<open>TableData\<close> is erased at run time: the elements are whatever was parsed.\<close>

record finalData =
  tables :: "js_value list option"
  markdown :: "js_string option"

text \<open>
  What a run does to the outside, in order: the status updates (with the status
  they produce), the calls of the inference client and how each call settles, the
  result stored, the calls of the two output emitters, \<^verbatim>\<open>console.error\<close>, and
  the TypeError that leaves \<^verbatim>\<open>startConversion\<close> uncaught when the \<^verbatim>\<open>catch\<close>
  block itself throws.
\<close>

datatype event =
    SetStatus ConversionStatus
  | CallGemini js_string ConversionTarget
  | GeminiReturned js_string
  | GeminiThrew js_error
  | SetConversionResult finalData
  | CallGenerateExcel "js_value list" js_string
  | CallGenerateWord js_string js_string
  | ConsoleError js_error
  | UncaughtTypeError

text \<open>
  The collaborators of a run. \<open>processPageWithGemini w i image target\<close> is how the
  \<open>i\<close>-th call of the inference client settles during the run: with the text it
  returns, or with the value it throws. \<open>generateExcel_throws\<close> and
  \<open>generateWord_throws\<close> say whether an emitter call throws.
\<close>

record world =
  processPageWithGemini :: "nat \<Rightarrow> js_string \<Rightarrow> ConversionTarget \<Rightarrow> js_error + js_string"
  generateExcel_throws :: "js_value list \<Rightarrow> js_string \<Rightarrow> js_error option"
  generateWord_throws :: "js_string \<Rightarrow> js_string \<Rightarrow> js_error option"

text \<open>The decimal digits of a number, as a template literal prints a small
  non-negative integer.\<close>

fun decimal :: "nat \<Rightarrow> js_string" where
  "decimal n =
     (if n < 10 then [of_nat (48 + n)]
      else decimal (n div 10) @ [of_nat (48 + n mod 10)])"

text \<open>
  The repository holds two copies of the component. Their \<^verbatim>\<open>startConversion\<close> is the
  same; \<^verbatim>\<open>triggerDownload\<close> cleans the file name with
  \<^verbatim>\<open>fileName.replace('.pdf', '')\<close> in \<^verbatim>\<open>App.tsx\<close> and with
  \<^verbatim>\<open>fileName.replace(/\.(pdf|png|jpg|jpeg)$/i, '')\<close> in the other copy.
\<close>

datatype source_copy = App_tsx | Other_copy

definition toLowerAscii :: "code_unit \<Rightarrow> code_unit" where
  "toLowerAscii c = (if 0x41 \<le> c \<and> c \<le> 0x5A then c + 0x20 else c)"

definition endsWithIgnoreCase :: "js_string \<Rightarrow> js_string \<Rightarrow> bool" where
  "endsWithIgnoreCase s suffix \<longleftrightarrow>
     length suffix \<le> length s \<and>
     map toLowerAscii (drop (length s - length suffix) s) = suffix"

definition cleanFileName :: "source_copy \<Rightarrow> js_string \<Rightarrow> js_string" where
  "cleanFileName v fileName =
     (case v of
        App_tsx \<Rightarrow> replace fileName (js ''.pdf'') []
      | Other_copy \<Rightarrow>
          if endsWithIgnoreCase fileName (js ''.pdf'') \<or>
             endsWithIgnoreCase fileName (js ''.png'') \<or>
             endsWithIgnoreCase fileName (js ''.jpg'')
          then take (length fileName - 4) fileName
          else if endsWithIgnoreCase fileName (js ''.jpeg'')
          then take (length fileName - 5) fileName
          else fileName)"

text \<open>\<^verbatim>\<open>triggerDownload\<close>: the emitter call it makes, and the value thrown if the
  call throws.\<close>

definition triggerDownload ::
  "source_copy \<Rightarrow> world \<Rightarrow> ConversionTarget \<Rightarrow> finalData \<Rightarrow> js_string \<Rightarrow>
     event list \<times> js_error option" where
  "triggerDownload v w targetType data fileName =
     (if targetType = EXCEL then
        ([CallGenerateExcel (case tables data of None \<Rightarrow> [] | Some ts \<Rightarrow> ts)
            (cleanFileName v fileName)],
         generateExcel_throws w (case tables data of None \<Rightarrow> [] | Some ts \<Rightarrow> ts)
            (cleanFileName v fileName))
      else
        ([CallGenerateWord (case markdown data of None \<Rightarrow> [] | Some m \<Rightarrow> m)
            (cleanFileName v fileName)],
         generateWord_throws w (case markdown data of None \<Rightarrow> [] | Some m \<Rightarrow> m)
            (cleanFileName v fileName)))"

text \<open>
  JavaScript numbers are binary64 numbers, and the results of \<^verbatim>\<open>/\<close> and \<^verbatim>\<open>*\<close> are
  rounded to the nearest one, a tie to the one with an even significand. \<open>fl64 x\<close>
  is that rounding of the exact result \<open>x\<close>: \<open>binade x\<close> is the exponent \<open>e\<close> with
  \<open>2 ^ e \<le> x < 2 ^ (e + 1)\<close>, the significand has 53 bits, so the binary64 numbers
  around \<open>x\<close> are the multiples of \<open>2 ^ (e - 52)\<close>, and of \<open>2 ^ - 1074\<close> below the
  smallest normal number. (No largest number is modelled: the program's quotients
  are at most 1 and its products at most 85.)
\<close>

definition round_half_even :: "rat \<Rightarrow> int" where
  "round_half_even z =
     (if z - of_int \<lfloor>z\<rfloor> < 1 / 2 then \<lfloor>z\<rfloor>
      else if 1 / 2 < z - of_int \<lfloor>z\<rfloor> then \<lfloor>z\<rfloor> + 1
      else if even \<lfloor>z\<rfloor> then \<lfloor>z\<rfloor>
      else \<lfloor>z\<rfloor> + 1)"

definition binade :: "rat \<Rightarrow> int" where
  "binade x =
     (case quotient_of x of
        (p, q) \<Rightarrow> if 2 powi (bitlen p - bitlen q) \<le> x then bitlen p - bitlen q
                  else bitlen p - bitlen q - 1)"

definition fl64 :: "rat \<Rightarrow> rat" where
  "fl64 x =
     (if x = 0 then 0
      else sgn x * of_int (round_half_even (\<bar>x\<bar> / 2 powi (max (binade \<bar>x\<bar>) (- 1022) - 52))) *
           2 powi (max (binade \<bar>x\<bar>) (- 1022) - 52))"

text \<open>\<^verbatim>\<open>5 + Math.floor((i / pages.length) * 85)\<close> for page \<open>i\<close> of \<open>n\<close>: the quotient
  and the product are rounded, the floor and the sum of small integers are exact.\<close>

definition page_progress :: "nat \<Rightarrow> nat \<Rightarrow> int" where
  "page_progress i n = 5 + \<lfloor>fl64 (fl64 (of_nat i / of_nat n) * 85)\<rfloor>"

text \<open>The status set before page \<open>i\<close> of \<open>n\<close> is dispatched: the functional update
  \<^verbatim>\<open>setStatus(prev => ({ ...prev, step, progress }))\<close>.\<close>

definition page_status :: "ConversionStatus \<Rightarrow> nat \<Rightarrow> nat \<Rightarrow> ConversionStatus" where
  "page_status prev i n =
     prev\<lparr>step := js ''Processing page '' @ decimal (i + 1) @ js '' of '' @ decimal n @
                   js ''...'',
          progress := page_progress i n\<rparr>"

text \<open>
  The \<^verbatim>\<open>for\<close> loop over the pages, from index \<open>i\<close> on, with the status, the results
  and the events so far. It ends with the results of all pages, or with the value
  thrown by the first call that throws.
\<close>

function page_loop ::
  "world \<Rightarrow> DocumentPage list \<Rightarrow> ConversionTarget \<Rightarrow> nat \<Rightarrow> ConversionStatus \<Rightarrow>
     js_string list \<Rightarrow> event list \<Rightarrow>
     (js_error + js_string list) \<times> ConversionStatus \<times> event list" where
  "page_loop w pages target i st pageResults tr =
     (if i < length pages then
        (case processPageWithGemini w i (dataUrl (pages ! i)) target of
           Inl err \<Rightarrow>
             (Inl err, page_status st i (length pages),
              tr @ [SetStatus (page_status st i (length pages)),
                    CallGemini (dataUrl (pages ! i)) target, GeminiThrew err])
         | Inr result \<Rightarrow>
             page_loop w pages target (Suc i) (page_status st i (length pages))
               (pageResults @ [result])
               (tr @ [SetStatus (page_status st i (length pages)),
                      CallGemini (dataUrl (pages ! i)) target, GeminiReturned result]))
      else (Inr pageResults, st, tr))"
  by pat_completeness auto
termination
  by (relation "measure (\<lambda>(w, pages, target, i, st, pageResults, tr). length pages - i)") auto

definition PAGE_BREAK :: js_string where
  "PAGE_BREAK = js ''\<newline>\<newline>--- PAGE BREAK ---\<newline>\<newline>''"

text \<open>The data assembled from the page results, by target.\<close>

definition assemble :: "ConversionTarget \<Rightarrow> js_string list \<Rightarrow> finalData" where
  "assemble target pageResults =
     (if target = EXCEL then
        \<lparr>tables = Some (assembleTables pageResults), markdown = None\<rparr>
      else
        \<lparr>tables = None, markdown = Some (join pageResults PAGE_BREAK)\<rparr>)"

text \<open>The state of the component that a run reads or writes. The selected file is
  modelled by its name (\<^verbatim>\<open>file.name\<close>), \<open>None\<close> without a file.\<close>

record app =
  file_name :: "js_string option"
  pages :: "DocumentPage list"
  status :: ConversionStatus
  target :: ConversionTarget
  conversionResult :: "finalData option"

text \<open>\<^verbatim>\<open>m || 'Something went wrong during conversion.'\<close> for the value \<open>m\<close> read from
  \<^verbatim>\<open>err.message\<close>: \<open>m\<close> itself when it is truthy (a string: when it is not empty),
  the fixed text otherwise.\<close>

definition error_value :: "js_prop \<Rightarrow> js_prop" where
  "error_value m =
     (case m of
        Undefined \<Rightarrow> StringValue (js ''Something went wrong during conversion.'')
      | StringValue t \<Rightarrow>
          if t = [] then StringValue (js ''Something went wrong during conversion.'')
          else StringValue t
      | OtherValue truthy_value ident \<Rightarrow>
          if truthy_value then OtherValue truthy_value ident
          else StringValue (js ''Something went wrong during conversion.''))"

definition status_error :: "js_prop \<Rightarrow> ConversionStatus" where
  "status_error m =
     \<lparr>step = js ''Error occurred'', progress = 0, isProcessing = False,
      error = Some (error_value m)\<rparr>"

text \<open>
  The \<^verbatim>\<open>catch\<close> block: \<^verbatim>\<open>console.error(err)\<close>, then \<^verbatim>\<open>setStatus\<close> with the error
  status. The argument of \<^verbatim>\<open>setStatus\<close> is evaluated first and reads
  \<^verbatim>\<open>err.message\<close>: for a thrown \<^verbatim>\<open>null\<close> or \<^verbatim>\<open>undefined\<close> that read throws, no
  status is set and the TypeError leaves \<^verbatim>\<open>startConversion\<close>.
\<close>

definition catch_block :: "app \<Rightarrow> js_error \<Rightarrow> event list \<Rightarrow> app \<times> event list" where
  "catch_block a err tr =
     (case err of
        ThrownNullish \<Rightarrow> (a, tr @ [ConsoleError err, UncaughtTypeError])
      | Thrown m \<Rightarrow>
          (a\<lparr>status := status_error m\<rparr>, tr @ [ConsoleError err, SetStatus (status_error m)]))"

definition status_init :: "ConversionTarget \<Rightarrow> ConversionStatus" where
  "status_init t =
     \<lparr>step = js ''Initializing Gemini for '' @ target_name t @ js ''...'', progress = 5,
      isProcessing = True, error = None\<rparr>"

definition status_finalizing :: ConversionStatus where
  "status_finalizing =
     \<lparr>step = js ''Finalizing document...'', progress = 95, isProcessing = True,
      error = None\<rparr>"

definition status_complete :: ConversionStatus where
  "status_complete =
     \<lparr>step = js ''Conversion Complete!'', progress = 100, isProcessing = False,
      error = None\<rparr>"

text \<open>
  \<^verbatim>\<open>startConversion\<close>: the state after the run and the events of the run. Without a
  file or without pages the function returns at once.
\<close>

definition startConversion :: "source_copy \<Rightarrow> world \<Rightarrow> app \<Rightarrow> app \<times> event list" where
  "startConversion v w a =
     (case file_name a of
        None \<Rightarrow> (a, [])
      | Some fileName \<Rightarrow>
          if length (pages a) = 0 then (a, [])
          else
            (case page_loop w (pages a) (target a) 0 (status_init (target a)) []
                    [SetStatus (status_init (target a))] of
               (Inl err, st, tr) \<Rightarrow> catch_block (a\<lparr>status := st\<rparr>) err tr
             | (Inr pageResults, st, tr) \<Rightarrow>
                 (case triggerDownload v w (target a) (assemble (target a) pageResults)
                         fileName of
                    (calls, Some err) \<Rightarrow>
                      catch_block
                        (a\<lparr>status := status_finalizing,
                           conversionResult := Some (assemble (target a) pageResults)\<rparr>)
                        err
                        (tr @ [SetStatus status_finalizing,
                               SetConversionResult (assemble (target a) pageResults)] @ calls)
                  | (calls, None) \<Rightarrow>
                      (a\<lparr>status := status_complete,
                         conversionResult := Some (assemble (target a) pageResults)\<rparr>,
                       tr @ [SetStatus status_finalizing,
                             SetConversionResult (assemble (target a) pageResults)] @ calls @
                            [SetStatus status_complete]))))"

section \<open>Observations on a run\<close>

text \<open>
  The functions below read the events of a run; the statements about
  \<^verbatim>\<open>startConversion\<close> are written with them. \<open>page_events\<close> are the three events
  of a page whose inference call returns \<open>r j\<close>; \<open>gemini_calls\<close> are the calls of the
  inference client with their arguments, in order; \<open>progress_values\<close> are the
  progress values of the status updates, in order.
\<close>

definition page_events ::
  "DocumentPage list \<Rightarrow> ConversionTarget \<Rightarrow> ConversionStatus \<Rightarrow>
     (nat \<Rightarrow> js_string) \<Rightarrow> nat \<Rightarrow> event list" where
  "page_events ps tgt st r j =
     [SetStatus (page_status st j (length ps)),
      CallGemini (dataUrl (ps ! j)) tgt, GeminiReturned (r j)]"

fun is_inference_event :: "event \<Rightarrow> bool" where
  "is_inference_event (CallGemini img tgt) = True"
| "is_inference_event (GeminiReturned result) = True"
| "is_inference_event (GeminiThrew err) = True"
| "is_inference_event e = False"

fun is_output_event :: "event \<Rightarrow> bool" where
  "is_output_event (SetConversionResult d) = True"
| "is_output_event (CallGenerateExcel ts name) = True"
| "is_output_event (CallGenerateWord md name) = True"
| "is_output_event e = False"

fun reported_progress :: "event \<Rightarrow> int list" where
  "reported_progress (SetStatus st) = [progress st]"
| "reported_progress e = []"

definition progress_values :: "event list \<Rightarrow> int list" where
  "progress_values tr = concat (map reported_progress tr)"

fun gemini_call :: "event \<Rightarrow> (js_string \<times> ConversionTarget) list" where
  "gemini_call (CallGemini img tgt) = [(img, tgt)]"
| "gemini_call e = []"

definition gemini_calls :: "event list \<Rightarrow> (js_string \<times> ConversionTarget) list" where
  "gemini_calls tr = concat (map gemini_call tr)"

section \<open>Example runs\<close>

text \<open>
  A world where every inference call returns a text and no emitter throws; the same
  world with a call that throws; the state of
  the component before a run (the initial status is \<^verbatim>\<open>Idle\<close>), for a file
  \<^verbatim>\<open>doc.pdf\<close> and a given list of pages.
\<close>

definition example_world :: world where
  "example_world =
     \<lparr>processPageWithGemini = (\<lambda>i img tgt. Inr (js ''text of '' @ img)),
      generateExcel_throws = (\<lambda>ts name. None),
      generateWord_throws = (\<lambda>md name. None)\<rparr>"

definition status_idle :: ConversionStatus where
  "status_idle = \<lparr>step = js ''Idle'', progress = 0, isProcessing = False, error = None\<rparr>"

definition example_app :: "DocumentPage list \<Rightarrow> app" where
  "example_app ps =
     \<lparr>file_name = Some (js ''doc.pdf''), pages = ps, status = status_idle, target = WORD,
      conversionResult = None\<rparr>"

definition three_pages :: "DocumentPage list" where
  "three_pages = [\<lparr>index = 1, dataUrl = js ''p1''\<rparr>, \<lparr>index = 2, dataUrl = js ''p2''\<rparr>,
                  \<lparr>index = 3, dataUrl = js ''p3''\<rparr>]"

definition failing_world :: "nat \<Rightarrow> js_error \<Rightarrow> world" where
  "failing_world k err =
     example_world\<lparr>processPageWithGemini :=
       (\<lambda>i img tgt. if i = k then Inl err else Inr (js ''text of '' @ img))\<rparr>"

section \<open>Properties of the string functions\<close>

lemma split_at_not_Nil: "split_at sep s \<noteq> []"
  by (induction s) (auto split: list.splits)

lemma length_push_line: "length (push_line children line) = Suc (length children)"
  by (simp add: push_line_def Let_def)

lemma length_foldl_push_line:
  "length (foldl push_line acc ls) = length acc + length ls"
  by (induction ls arbitrary: acc) (simp_all add: length_push_line)

lemma startsWith_iff: "startsWith s p \<longleftrightarrow> (\<exists>r. s = p @ r)"
proof
  assume "startsWith s p"
  then have "s = p @ drop (length p) s"
    by (metis append_take_drop_id startsWith_def)
  then show "\<exists>r. s = p @ r" ..
next
  assume "\<exists>r. s = p @ r"
  then show "startsWith s p" by (auto simp: startsWith_def)
qed

lemma startsWith_Cons: "startsWith (c # s) (d # p) \<longleftrightarrow> c = d \<and> startsWith s p"
  by (simp add: startsWith_def)

lemma startsWith_Nil_Cons: "\<not> startsWith [] (d # p)"
  by (simp add: startsWith_def)

lemma startsWith_Nil: "startsWith s []"
  by (simp add: startsWith_def)

lemmas startsWith_simps = startsWith_Cons startsWith_Nil_Cons startsWith_Nil

lemma replace_prefix: "replace (p @ r) p [] = r"
proof (cases "p @ r")
  case Nil
  then show ?thesis by simp
next
  case (Cons c cs)
  have "startsWith (c # cs) p"
    unfolding Cons [symmetric] by (simp add: startsWith_def)
  then have "replace (c # cs) p [] = drop (length p) (c # cs)"
    by simp
  also have "\<dots> = r"
    unfolding Cons [symmetric] by simp
  finally show ?thesis
    unfolding Cons [symmetric] .
qed

lemma js_hash1: "js ''# '' = [35, 32]" by (simp add: js_def)
lemma js_hash2: "js ''## '' = [35, 35, 32]" by (simp add: js_def)
lemma js_hash3: "js ''### '' = [35, 35, 35, 32]" by (simp add: js_def)
lemma js_dash: "js ''- '' = [45, 32]" by (simp add: js_def)
lemma js_star: "js ''* '' = [42, 32]" by (simp add: js_def)
lemmas js_prefixes = js_hash1 js_hash2 js_hash3 js_dash js_star

lemma trim_Nil_iff: "trim s = [] \<longleftrightarrow> list_all isWhiteSpace s"
proof
  assume "list_all isWhiteSpace s"
  then have "\<forall>x\<in>set s. isWhiteSpace x"
    by (simp add: list_all_iff)
  then have d: "dropWhile isWhiteSpace s = []"
    by (induction s) simp_all
  show "trim s = []" unfolding trim_def d by simp
next
  assume t: "trim s = []"
  show "list_all isWhiteSpace s"
  proof (rule ccontr)
    assume "\<not> list_all isWhiteSpace s"
    then have "\<exists>x\<in>set s. \<not> isWhiteSpace x"
      by (simp add: list_all_iff)
    then have ne: "dropWhile isWhiteSpace s \<noteq> []"
      by (induction s) auto
    then have "\<not> isWhiteSpace (hd (dropWhile isWhiteSpace s))"
      by (rule hd_dropWhile)
    moreover have "hd (dropWhile isWhiteSpace s) \<in> set (rev (dropWhile isWhiteSpace s))"
      using ne by simp
    ultimately have "dropWhile isWhiteSpace (rev (dropWhile isWhiteSpace s)) \<noteq> []"
      by (metis dropWhile_eq_Nil_conv)
    with t show False by (simp add: trim_def)
  qed
qed

lemma not_ws_marks: "\<not> isWhiteSpace 35" "\<not> isWhiteSpace 45" "\<not> isWhiteSpace 42"
  by (simp_all add: isWhiteSpace_def)

lemma push_line_h1:
  assumes "startsWith line (js ''# '')"
  shows "push_line children line = children @ [Heading1 (drop 2 line)]"
proof -
  from assms obtain r where l: "line = js ''# '' @ r"
    by (auto simp: startsWith_iff)
  have "trim line \<noteq> []"
    by (simp add: l js_prefixes trim_Nil_iff not_ws_marks)
  moreover have "replace line (js ''# '') [] = drop 2 line"
    unfolding l replace_prefix by (simp add: js_prefixes)
  ultimately show ?thesis using assms by (simp add: push_line_def)
qed

lemma push_line_h2:
  assumes "startsWith line (js ''## '')"
  shows "push_line children line = children @ [Heading2 (drop 3 line)]"
proof -
  from assms obtain r where l: "line = js ''## '' @ r"
    by (auto simp: startsWith_iff)
  have "trim line \<noteq> []"
    by (simp add: l js_prefixes trim_Nil_iff not_ws_marks)
  moreover have "replace line (js ''## '') [] = drop 3 line"
    unfolding l replace_prefix by (simp add: js_prefixes)
  moreover have "\<not> startsWith line (js ''# '')"
    by (simp add: l js_prefixes startsWith_simps)
  ultimately show ?thesis using assms by (simp add: push_line_def)
qed

lemma push_line_h3:
  assumes "startsWith line (js ''### '')"
  shows "push_line children line = children @ [Heading3 (drop 4 line)]"
proof -
  from assms obtain r where l: "line = js ''### '' @ r"
    by (auto simp: startsWith_iff)
  have "trim line \<noteq> []"
    by (simp add: l js_prefixes trim_Nil_iff not_ws_marks)
  moreover have "replace line (js ''### '') [] = drop 4 line"
    unfolding l replace_prefix by (simp add: js_prefixes)
  moreover have "\<not> startsWith line (js ''# '')" "\<not> startsWith line (js ''## '')"
    by (simp_all add: l js_prefixes startsWith_simps)
  ultimately show ?thesis using assms by (simp add: push_line_def)
qed

lemma push_line_bullet:
  assumes "startsWith line (js ''- '') \<or> startsWith line (js ''* '')"
  shows "push_line children line = children @ [BulletItem (drop 2 line)]"
proof -
  from assms obtain r where l: "line = js ''- '' @ r \<or> line = js ''* '' @ r"
    by (auto simp: startsWith_iff)
  have "trim line \<noteq> []"
    using l by (auto simp: js_prefixes trim_Nil_iff not_ws_marks)
  moreover have "\<not> startsWith line (js ''# '')" "\<not> startsWith line (js ''## '')"
    "\<not> startsWith line (js ''### '')"
    using l by (auto simp: js_prefixes startsWith_simps)
  ultimately show ?thesis using assms by (simp add: push_line_def substring_def)
qed

lemma push_line_paragraph:
  assumes "\<not> list_all isWhiteSpace line \<or> children = []"
    and "\<not> startsWith line (js ''# '')" "\<not> startsWith line (js ''## '')"
    and "\<not> startsWith line (js ''### '')"
    and "\<not> startsWith line (js ''- '')" "\<not> startsWith line (js ''* '')"
  shows "push_line children line = children @ [TextParagraph line]"
  using assms by (auto simp: push_line_def trim_Nil_iff)

lemma push_line_indented:
  assumes "ind \<noteq> []" "list_all isWhiteSpace ind"
    and "p \<in> {js ''# '', js ''## '', js ''### '', js ''- '', js ''* ''}"
  shows "push_line children (ind @ p @ rest) = children @ [TextParagraph (ind @ p @ rest)]"
proof -
  from assms(1) obtain w ws where ind: "ind = w # ws" by (cases ind) auto
  with assms(2) have w: "isWhiteSpace w" by simp
  then have w': "w \<noteq> 35" "w \<noteq> 45" "w \<noteq> 42"
    using not_ws_marks by auto
  have "\<not> list_all isWhiteSpace (ind @ p @ rest)"
    using assms(3) by (auto simp: js_prefixes not_ws_marks)
  moreover have "\<not> startsWith (ind @ p @ rest) q"
    if "q \<in> {js ''# '', js ''## '', js ''### '', js ''- '', js ''* ''}" for q
    using that w' by (auto simp: ind js_prefixes startsWith_simps)
  ultimately show ?thesis
    by (intro push_line_paragraph) auto
qed

lemma push_line_blank:
  assumes "list_all isWhiteSpace line" "children \<noteq> []"
  shows "push_line children line = children @ [Blank]"
  using assms by (simp add: push_line_def trim_Nil_iff)

lemma blank_not_startsWith:
  assumes "list_all isWhiteSpace line" "\<not> isWhiteSpace c"
  shows "\<not> startsWith line (c # p)"
  using assms by (cases line) (auto simp: startsWith_simps)

lemma push_line_leading_blank:
  assumes "list_all isWhiteSpace line"
  shows "push_line [] line = [TextParagraph line]"
  using push_line_paragraph [of line "[]"] blank_not_startsWith [OF assms] not_ws_marks
  by (simp add: js_prefixes)

lemma split_at_append:
  "split_at sep (a @ sep # b) = split_at sep a @ split_at sep b"
  by (induction a) (auto split: list.splits simp: split_at_not_Nil)

lemma join_loop_append:
  "join_loop sep R (Suc k) xs = R @ concat (map (\<lambda>x. sep @ x) xs)"
  by (induction xs arbitrary: R k) simp_all

lemma join_Nil: "join [] sep = []"
  by (simp add: join_def)

lemma join_Cons: "join (x # xs) sep = x @ concat (map (\<lambda>y. sep @ y) xs)"
  by (simp add: join_def join_loop_append)

lemma push_line_last:
  "\<exists>x. push_line children line = children @ [x] \<and> x \<noteq> Placeholder"
  by (simp add: push_line_def Let_def Blank_def Heading1_def Heading2_def Heading3_def
      BulletItem_def TextParagraph_def Placeholder_def)

lemma foldl_push_line_set:
  "Placeholder \<notin> set acc \<Longrightarrow> Placeholder \<notin> set (foldl push_line acc ls)"
proof (induction ls arbitrary: acc)
  case Nil
  then show ?case by simp
next
  case (Cons l ls)
  obtain x where "push_line acc l = acc @ [x]" "x \<noteq> Placeholder"
    using push_line_last by blast
  with Cons.prems have "Placeholder \<notin> set (push_line acc l)" by auto
  then show ?case using Cons.IH by simp
qed

lemma PAGE_BREAK_units:
  "PAGE_BREAK = LF # LF # js ''--- PAGE BREAK ---'' @ [LF, LF]"
  by (simp add: PAGE_BREAK_def LF_def js_def)

lemma split_at_separator_line:
  "split_at LF (js ''--- PAGE BREAK ---'') = [js ''--- PAGE BREAK ---'']"
  by (simp add: js_def LF_def)

section \<open>The assembled document\<close>

text \<open>
  Claim C4. The text handed to the document generator is the page results joined in
  page order, with the separator between consecutive results only: nothing for no
  result, and the first result followed by each later result behind one separator.
  The separator reaches the line parser as an empty line, the line
  \<^verbatim>\<open>--- PAGE BREAK ---\<close> and another empty line, between the lines of the two pages;
  the parser has no case for that line and makes it an ordinary text paragraph,
  whatever has been emitted before.
\<close>

theorem C4_page_break_concatenation:
  "markdown (assemble WORD pageResults) = Some (join pageResults PAGE_BREAK) \<and>
   join [] PAGE_BREAK = [] \<and>
   join (r # rs) PAGE_BREAK = r @ concat (map (\<lambda>x. PAGE_BREAK @ x) rs) \<and>
   split_at LF (a @ PAGE_BREAK @ b) =
     split_at LF a @ [[], js ''--- PAGE BREAK ---'', []] @ split_at LF b \<and>
   push_line children (js ''--- PAGE BREAK ---'') =
     children @ [TextParagraph (js ''--- PAGE BREAK ---'')]"
proof -
  have "split_at LF (a @ PAGE_BREAK @ b) =
      split_at LF a @ split_at LF (LF # js ''--- PAGE BREAK ---'' @ LF # LF # b)"
    unfolding PAGE_BREAK_units using split_at_append [of LF a] by simp
  also have "split_at LF (LF # js ''--- PAGE BREAK ---'' @ LF # LF # b) =
      [] # split_at LF (js ''--- PAGE BREAK ---'' @ LF # LF # b)"
    by simp
  also have "split_at LF (js ''--- PAGE BREAK ---'' @ LF # LF # b) =
      split_at LF (js ''--- PAGE BREAK ---'') @ split_at LF (LF # b)"
    by (rule split_at_append)
  finally have lines: "split_at LF (a @ PAGE_BREAK @ b) =
      split_at LF a @ [[], js ''--- PAGE BREAK ---'', []] @ split_at LF b"
    by (simp add: split_at_separator_line)
  have "push_line children (js ''--- PAGE BREAK ---'') =
      children @ [TextParagraph (js ''--- PAGE BREAK ---'')]"
    by (rule push_line_paragraph)
      (simp_all add: js_def startsWith_def isWhiteSpace_def)
  with lines show ?thesis
    by (simp add: assemble_def join_Nil join_Cons)
qed

text \<open>The example of the specification: two page results, joined and parsed.\<close>

lemma document_example:
  "join [js ''# Title\<newline>Hello'', js ''World''] PAGE_BREAK =
     js ''# Title\<newline>Hello\<newline>\<newline>--- PAGE BREAK ---\<newline>\<newline>World'' \<and>
   generateWord_children (join [js ''# Title\<newline>Hello'', js ''World''] PAGE_BREAK) =
     [Heading1 (js ''Title''), TextParagraph (js ''Hello''), Blank,
      TextParagraph (js ''--- PAGE BREAK ---''), Blank, TextParagraph (js ''World'')]"
  by code_simp

text \<open>
  Claim C5. A line that starts with \<^verbatim>\<open># \<close>, \<^verbatim>\<open>## \<close> or \<^verbatim>\<open>### \<close> becomes a heading of
  level 1, 2 or 3 whose text is the line without these first 2, 3 or 4 code units; a
  line that starts with \<^verbatim>\<open>- \<close> or \<^verbatim>\<open>* \<close> becomes a bullet item whose text is the line
  without its first 2 code units; a line where white space stands before one of the
  five prefixes becomes a text paragraph that holds the whole line. Each holds
  whatever has been emitted before, and the line's paragraph is appended to it.
\<close>

theorem C5_line_classification:
  "(startsWith line (js ''# '') \<longrightarrow>
      push_line children line = children @ [Heading1 (drop 2 line)]) \<and>
   (startsWith line (js ''## '') \<longrightarrow>
      push_line children line = children @ [Heading2 (drop 3 line)]) \<and>
   (startsWith line (js ''### '') \<longrightarrow>
      push_line children line = children @ [Heading3 (drop 4 line)]) \<and>
   (startsWith line (js ''- '') \<or> startsWith line (js ''* '') \<longrightarrow>
      push_line children line = children @ [BulletItem (drop 2 line)]) \<and>
   (ind \<noteq> [] \<and> list_all isWhiteSpace ind \<and>
    p \<in> {js ''# '', js ''## '', js ''### '', js ''- '', js ''* ''} \<longrightarrow>
      push_line children (ind @ p @ rest) = children @ [TextParagraph (ind @ p @ rest)])"
  using push_line_h1 push_line_h2 push_line_h3 push_line_bullet push_line_indented
  by blast

theorem C5_line_classification_witness:
  "push_line [Blank] (js ''# Title'') = [Blank, Heading1 (js ''Title'')] \<and>
   push_line [] (js ''## # A'') = [Heading2 (js ''# A'')] \<and>
   push_line [] (js ''### B'') = [Heading3 (js ''B'')] \<and>
   push_line [] (js ''- x'') = [BulletItem (js ''x'')] \<and>
   push_line [] (js ''* y'') = [BulletItem (js ''y'')] \<and>
   push_line [] (js '' # T'') = [TextParagraph (js '' # T'')] \<and>
   push_line [] (js ''  - z'') = [TextParagraph (js ''  - z'')]"
proof -
  have "push_line [Blank] (js ''# Title'') = [Blank] @ [Heading1 (drop 2 (js ''# Title''))]"
    using C5_line_classification [of "js ''# Title''" "[Blank]"]
    by (simp add: startsWith_def js_def)
  moreover have "push_line [] (js ''## # A'') = [] @ [Heading2 (drop 3 (js ''## # A''))]"
    using C5_line_classification [of "js ''## # A''" "[]"]
    by (simp add: startsWith_def js_def)
  moreover have "push_line [] (js ''### B'') = [] @ [Heading3 (drop 4 (js ''### B''))]"
    using C5_line_classification [of "js ''### B''" "[]"]
    by (simp add: startsWith_def js_def)
  moreover have "push_line [] (js ''- x'') = [] @ [BulletItem (drop 2 (js ''- x''))]"
    using C5_line_classification [of "js ''- x''" "[]"]
    by (simp add: startsWith_def js_def)
  moreover have "push_line [] (js ''* y'') = [] @ [BulletItem (drop 2 (js ''* y''))]"
    using C5_line_classification [of "js ''* y''" "[]"]
    by (simp add: startsWith_def js_def)
  moreover have "push_line [] (js '' '' @ js ''# '' @ js ''T'') =
      [] @ [TextParagraph (js '' '' @ js ''# '' @ js ''T'')]"
    using C5_line_classification [of _ "[]" "js '' ''" "js ''# ''" "js ''T''"]
    by (simp add: js_def isWhiteSpace_def)
  moreover have "push_line [] (js ''  '' @ js ''- '' @ js ''z'') =
      [] @ [TextParagraph (js ''  '' @ js ''- '' @ js ''z'')]"
    using C5_line_classification [of _ "[]" "js ''  ''" "js ''- ''" "js ''z''"]
    by (simp add: js_def isWhiteSpace_def)
  ultimately show ?thesis
    by (simp add: js_def)
qed

text \<open>
  Claim C6, on the code. A blank line behind an emitted block makes one \<open>Blank\<close>, each
  such line its own. A blank line with nothing emitted before it is not dropped: it
  falls through to the last case and makes a text paragraph that holds the line.
  The input \<^verbatim>\<open>"\nHello"\<close> gives two blocks, where dropping the leading blank line
  would give one.
\<close>

theorem C6_leading_blank_line_kept:
  "generateWord_children (js ''\<newline>Hello'') = [TextParagraph [], TextParagraph (js ''Hello'')] \<and>
   generateWord_children (js ''A\<newline>\<newline> \<newline>B'') =
     [TextParagraph (js ''A''), Blank, Blank, TextParagraph (js ''B'')]"
  by code_simp

text \<open>
  Claim C9, on the code. The empty text is one empty line, and \<^verbatim>\<open>generateWord\<close>
  makes a text paragraph with an empty run of it; the list of children is then not
  empty and the placeholder paragraph is not used.
\<close>

theorem C9_empty_input_no_placeholder:
  "join [] PAGE_BREAK = [] \<and>
   generateWord_section [] = [TextParagraph []] \<and>
   generateWord_section [] \<noteq> [Placeholder]"
  by (simp add: join_Nil generateWord_section_def generateWord_children_def
      push_line_leading_blank TextParagraph_def Placeholder_def)

text \<open>
  Claim C10. Every line of the split input appends exactly one paragraph to the
  ones before it, so \<^verbatim>\<open>generateWord\<close> builds as many paragraphs as the input has
  lines. An input has at least one line; the list of children is never empty, the
  section holds the children themselves, and the placeholder paragraph is never
  among them.
\<close>

theorem C10_one_block_per_line:
  "length (push_line children line) = Suc (length children) \<and>
   take (length children) (push_line children line) = children \<and>
   length (generateWord_children markdownText) = length (split_at LF markdownText) \<and>
   0 < length (split_at LF markdownText) \<and>
   generateWord_children markdownText \<noteq> [] \<and>
   generateWord_section markdownText = generateWord_children markdownText \<and>
   Placeholder \<notin> set (generateWord_section markdownText)"
proof -
  obtain x where x: "push_line children line = children @ [x]"
    using push_line_last by blast
  have len: "length (generateWord_children markdownText) = length (split_at LF markdownText)"
    by (simp add: generateWord_children_def length_foldl_push_line)
  have pos: "0 < length (split_at LF markdownText)"
    using split_at_not_Nil [of LF markdownText] by simp
  have ne: "generateWord_children markdownText \<noteq> []"
    using len pos by auto
  have sec: "generateWord_section markdownText = generateWord_children markdownText"
    using ne by (simp add: generateWord_section_def Let_def)
  have "Placeholder \<notin> set (generateWord_children markdownText)"
    unfolding generateWord_children_def by (rule foldl_push_line_set) simp
  with x len pos ne sec show ?thesis
    by (simp add: length_push_line)
qed

section \<open>Properties of the parser\<close>

text \<open>Every parser returns a rest shorter than its input, and the fuel of
  \<open>JSON_parse\<close> is never used up.\<close>

lemma length_skip_ws: "length (skip_ws s) \<le> length s"
  by (simp add: skip_ws_def length_dropWhile_le)

lemma skip_ws_Cons: "skip_ws s = c # cs \<Longrightarrow> length cs < length s"
  using length_skip_ws [of s] by simp

lemma parse_string_chars_length:
  "parse_string_chars cs acc = Some (str, r) \<Longrightarrow> length r < length cs"
proof (induction cs acc rule: parse_string_chars.induct)
  case (1 acc)
  then show ?case by simp
next
  case (2 c cs acc)
  show ?case
  proof (cases "c = 0x22")
    case True
    with 2 show ?thesis by simp
  next
    case q: False
    show ?thesis
    proof (cases "c = 0x5C")
      case False
      with q 2 show ?thesis
        by (simp split: if_splits)
    next
      case b: True
      show ?thesis
      proof (cases cs)
        case Nil
        with 2(4) q b show ?thesis by simp
      next
        case (Cons e es)
        show ?thesis
        proof (cases "e = 0x75")
          case False
          then obtain u where "simple_escape e = Some u"
            "parse_string_chars es (acc @ [u]) = Some (str, r)"
            using 2(4) q b Cons by (auto split: option.splits)
          then have "length r < length es"
            using "2.IH"(2) [OF q b Cons False] by simp
          then show ?thesis using Cons by simp
        next
          case u: True
          then obtain h1 h2 h3 h4 r' v where es: "es = h1 # h2 # h3 # h4 # r'"
            and "hex4 h1 h2 h3 h4 = Some v"
            and "parse_string_chars r' (acc @ [v]) = Some (str, r)"
            using 2(4) q b Cons by (auto split: option.splits list.splits)
          then have "length r < length r'"
            using "2.IH"(1) [OF q b Cons u] by simp
          then show ?thesis using Cons es by simp
        qed
      qed
    qed
  qed
qed

lemma parse_int_part_length:
  "parse_int_part s = Some (ip, r) \<Longrightarrow> length r < length s"
  by (auto simp: parse_int_part_def less_Suc_eq_le length_dropWhile_le
      split: list.splits if_splits)

lemma parse_frac_part_length:
  "parse_frac_part s = Some (fp, r) \<Longrightarrow> length r \<le> length s"
  by (auto simp: parse_frac_part_def le_SucI length_dropWhile_le
      split: list.splits if_splits)

lemma exp_sign_length:
  "(case cs of [] \<Rightarrow> (False, cs)
    | d # r \<Rightarrow> if d = 0x2D then (True, r) else if d = 0x2B then (False, r) else (False, cs)) =
     (neg, ds) \<Longrightarrow> length ds \<le> length (cs :: js_string)"
  by (cases cs) (auto split: if_splits)

lemma parse_exp_part_length:
  assumes "parse_exp_part s = Some (ex, r)"
  shows "length r \<le> length s"
proof (cases s)
  case Nil
  with assms show ?thesis by (simp add: parse_exp_part_def)
next
  case (Cons c cs)
  show ?thesis
  proof (cases "c = 0x65 \<or> c = 0x45")
    case False
    with assms Cons show ?thesis by (auto simp: parse_exp_part_def)
  next
    case True
    obtain neg ds where sg: "(case cs of [] \<Rightarrow> (False, cs)
        | d # r \<Rightarrow> if d = 0x2D then (True, r) else if d = 0x2B then (False, r) else (False, cs)) =
        (neg, ds)"
      by (cases "(case cs of [] \<Rightarrow> (False, cs)
        | d # r \<Rightarrow> if d = 0x2D then (True, r) else if d = 0x2B then (False, r) else (False, cs))")
    have "length ds \<le> length cs" by (rule exp_sign_length [OF sg])
    moreover have "r = dropWhile isDigit ds"
      using assms Cons True sg by (simp add: parse_exp_part_def split: if_splits)
    ultimately show ?thesis
      using Cons length_dropWhile_le [of isDigit ds] by simp
  qed
qed

lemma parse_number_length:
  assumes "parse_number s = Some (v, r)"
  shows "length r < length s"
proof -
  obtain neg s1 where s1: "(case s of c # cs \<Rightarrow> if c = 0x2D then (True, cs) else (False, s)
                                | [] \<Rightarrow> (False, s)) = (neg, s1)"
    by (cases "(case s of c # cs \<Rightarrow> if c = 0x2D then (True, cs) else (False, s)
                                | [] \<Rightarrow> (False, s))")
  then have l1: "length s1 \<le> length s"
    by (cases s) (auto split: if_splits)
  from assms obtain ip s2 fp s3 ex where
    p: "parse_int_part s1 = Some (ip, s2)" "parse_frac_part s2 = Some (fp, s3)"
    "parse_exp_part s3 = Some (ex, r)"
    unfolding parse_number_def s1 by (simp split: option.splits prod.splits)
  have "length s2 < length s1" using p(1) by (rule parse_int_part_length)
  moreover have "length s3 \<le> length s2" using p(2) by (rule parse_frac_part_length)
  moreover have "length r \<le> length s3" using p(3) by (rule parse_exp_part_length)
  ultimately show ?thesis using l1 by simp
qed

lemma skip_ws_length_Cons: "skip_ws s = c # cs \<Longrightarrow> Suc (length cs) \<le> length s"
  using length_skip_ws [of s] by simp

lemma parse_value_step:
  assumes e1: "\<And>s acc. 2 * length s + 1 < n \<Longrightarrow> parse_elements n acc s \<noteq> OutOfFuel"
    and e2: "\<And>s acc v r. parse_elements n acc s = Parsed v r \<Longrightarrow> length r < length s"
    and m1: "\<And>s acc. 2 * length s + 1 < n \<Longrightarrow> parse_members n acc s \<noteq> OutOfFuel"
    and m2: "\<And>s acc v r. parse_members n acc s = Parsed v r \<Longrightarrow> length r < length s"
  shows "2 * length s < Suc n \<Longrightarrow> parse_value (Suc n) s \<noteq> OutOfFuel"
    and "parse_value (Suc n) s = Parsed v r \<Longrightarrow> length r < length s"
proof -
  show "parse_value (Suc n) s \<noteq> OutOfFuel" if fuel: "2 * length s < Suc n"
  proof (cases "skip_ws s")
    case Nil
    then show ?thesis by simp
  next
    case (Cons c cs)
    note l = skip_ws_length_Cons [OF Cons]
    show ?thesis
    proof (cases "skip_ws cs")
      case Nil
      then show ?thesis using Cons by (simp split: option.splits prod.splits)
    next
      case inner: (Cons d ds)
      note l' = skip_ws_length_Cons [OF inner]
      have "2 * length (d # ds) + 1 < n" using l l' fuel by simp
      then have "parse_elements n [] (d # ds) \<noteq> OutOfFuel"
        "parse_members n [] (d # ds) \<noteq> OutOfFuel"
        using e1 m1 by blast+
      then show ?thesis using Cons inner by (auto split: option.splits prod.splits)
    qed
  qed
  show "length r < length s" if p: "parse_value (Suc n) s = Parsed v r"
  proof (cases "skip_ws s")
    case Nil
    then show ?thesis using p by simp
  next
    case (Cons c cs)
    note l = skip_ws_length_Cons [OF Cons]
    consider (arr) "c = 0x5B" | (obj) "c \<noteq> 0x5B" "c = 0x7B"
      | (str) "c \<noteq> 0x5B" "c \<noteq> 0x7B" "c = 0x22"
      | (other) "c \<noteq> 0x5B" "c \<noteq> 0x7B" "c \<noteq> 0x22"
      by blast
    then show ?thesis
    proof cases
      case arr
      show ?thesis
      proof (cases "skip_ws cs")
        case Nil
        then show ?thesis using p Cons arr by simp
      next
        case inner: (Cons d ds)
        note l' = skip_ws_length_Cons [OF inner]
        show ?thesis
        proof (cases "d = 0x5D")
          case True
          then show ?thesis using p Cons arr inner l l' by simp
        next
          case False
          then have "parse_elements n [] (d # ds) = Parsed v r"
            using p Cons arr inner by simp
          from e2 [OF this] show ?thesis using l l' by simp
        qed
      qed
    next
      case obj
      show ?thesis
      proof (cases "skip_ws cs")
        case Nil
        then show ?thesis using p Cons obj by simp
      next
        case inner: (Cons d ds)
        note l' = skip_ws_length_Cons [OF inner]
        show ?thesis
        proof (cases "d = 0x7D")
          case True
          then show ?thesis using p Cons obj inner l l' by simp
        next
          case False
          then have "parse_members n [] (d # ds) = Parsed v r"
            using p Cons obj inner by simp
          from m2 [OF this] show ?thesis using l l' by simp
        qed
      qed
    next
      case str
      then obtain x where "parse_string_chars cs [] = Some (x, r)"
        using p Cons by (auto split: option.splits)
      from parse_string_chars_length [OF this] show ?thesis using l by simp
    next
      case other
      have "length r < length (c # cs)"
        using p Cons other parse_number_length [of "c # cs" v r]
        by (auto split: if_splits option.splits)
      then show ?thesis using l by simp
    qed
  qed
qed

lemma parse_elements_step:
  assumes v1: "\<And>s. 2 * length s < n \<Longrightarrow> parse_value n s \<noteq> OutOfFuel"
    and v2: "\<And>s v r. parse_value n s = Parsed v r \<Longrightarrow> length r < length s"
    and e1: "\<And>s acc. 2 * length s + 1 < n \<Longrightarrow> parse_elements n acc s \<noteq> OutOfFuel"
    and e2: "\<And>s acc v r. parse_elements n acc s = Parsed v r \<Longrightarrow> length r < length s"
  shows "2 * length s + 1 < Suc n \<Longrightarrow> parse_elements (Suc n) acc s \<noteq> OutOfFuel"
    and "parse_elements (Suc n) acc s = Parsed v r \<Longrightarrow> length r < length s"
proof -
  show "parse_elements (Suc n) acc s \<noteq> OutOfFuel" if fuel: "2 * length s + 1 < Suc n"
  proof (cases "parse_value n s")
    case OutOfFuel
    with v1 [of s] fuel show ?thesis by simp
  next
    case SyntaxError
    then show ?thesis by simp
  next
    case (Parsed x r0)
    note l0 = v2 [OF Parsed]
    show ?thesis
    proof (cases "skip_ws r0")
      case Nil
      then show ?thesis using Parsed by simp
    next
      case (Cons c cs)
      note l = skip_ws_length_Cons [OF Cons]
      have "2 * length cs + 1 < n" using l l0 fuel by simp
      from e1 [OF this] show ?thesis using Parsed Cons by simp
    qed
  qed
  show "length r < length s" if p: "parse_elements (Suc n) acc s = Parsed v r"
  proof (cases "parse_value n s")
    case OutOfFuel
    then show ?thesis using p by simp
  next
    case SyntaxError
    then show ?thesis using p by simp
  next
    case (Parsed x r0)
    note l0 = v2 [OF Parsed]
    show ?thesis
    proof (cases "skip_ws r0")
      case Nil
      then show ?thesis using Parsed p by simp
    next
      case (Cons c cs)
      note l = skip_ws_length_Cons [OF Cons]
      show ?thesis
      proof (cases "c = 0x2C")
        case True
        then have "parse_elements n (acc @ [x]) cs = Parsed v r"
          using p Parsed Cons by simp
        from e2 [OF this] show ?thesis using l l0 by simp
      next
        case False
        then have "r = cs"
          using p Parsed Cons by (simp split: if_splits)
        then show ?thesis using l l0 by simp
      qed
    qed
  qed
qed

lemma parse_members_step:
  assumes v1: "\<And>s. 2 * length s < n \<Longrightarrow> parse_value n s \<noteq> OutOfFuel"
    and v2: "\<And>s v r. parse_value n s = Parsed v r \<Longrightarrow> length r < length s"
    and m1: "\<And>s acc. 2 * length s + 1 < n \<Longrightarrow> parse_members n acc s \<noteq> OutOfFuel"
    and m2: "\<And>s acc v r. parse_members n acc s = Parsed v r \<Longrightarrow> length r < length s"
  shows "2 * length s + 1 < Suc n \<Longrightarrow> parse_members (Suc n) acc s \<noteq> OutOfFuel"
    and "parse_members (Suc n) acc s = Parsed v r \<Longrightarrow> length r < length s"
proof -
  have key: "(2 * length s + 1 < Suc n \<longrightarrow> parse_members (Suc n) acc s \<noteq> OutOfFuel) \<and>
      (parse_members (Suc n) acc s = Parsed v r \<longrightarrow> length r < length s)"
  proof (cases "skip_ws s")
    case Nil
    then show ?thesis by simp
  next
    case (Cons c cs)
    note l = skip_ws_length_Cons [OF Cons]
    show ?thesis
    proof (cases "c = 0x22")
      case False
      then show ?thesis using Cons by simp
    next
      case q: True
      show ?thesis
      proof (cases "parse_string_chars cs []")
        case None
        then show ?thesis using Cons q by simp
      next
        case (Some kr)
        obtain key r1 where kr: "kr = (key, r1)" by (cases kr)
        note l1 = parse_string_chars_length [OF Some [unfolded kr]]
        show ?thesis
        proof (cases "skip_ws r1")
          case Nil
          then show ?thesis using Cons q Some kr by simp
        next
          case colon: (Cons d ds)
          note l2 = skip_ws_length_Cons [OF colon]
          show ?thesis
          proof (cases "d = 0x3A")
            case False
            then show ?thesis using Cons q Some kr colon by simp
          next
            case c: True
            show ?thesis
            proof (cases "parse_value n ds")
              case OutOfFuel
              have "2 * length s + 1 < Suc n \<Longrightarrow> False"
                using v1 [of ds] OutOfFuel l l1 l2 by simp
              then show ?thesis using Cons q Some kr colon c OutOfFuel by auto
            next
              case SyntaxError
              then show ?thesis using Cons q Some kr colon c by simp
            next
              case (Parsed x r2)
              note l3 = v2 [OF Parsed]
              show ?thesis
              proof (cases "skip_ws r2")
                case Nil
                then show ?thesis using Cons q Some kr colon c Parsed by simp
              next
                case sep: (Cons e es)
                note l4 = skip_ws_length_Cons [OF sep]
                show ?thesis
                proof (cases "e = 0x2C")
                  case True
                  have "2 * length s + 1 < Suc n \<Longrightarrow> 2 * length es + 1 < n"
                    using l l1 l2 l3 l4 by simp
                  then have "2 * length s + 1 < Suc n \<Longrightarrow>
                      parse_members n (obj_put acc key x) es \<noteq> OutOfFuel"
                    using m1 by blast
                  moreover have "parse_members n (obj_put acc key x) es = Parsed v r \<Longrightarrow>
                      length r < length s"
                    using m2 [of "obj_put acc key x" es v r] l l1 l2 l3 l4 by simp
                  ultimately show ?thesis
                    using Cons q Some kr colon c Parsed sep True by simp
                next
                  case False
                  then show ?thesis
                    using Cons q Some kr colon c Parsed sep l l1 l2 l3 l4 by auto
                qed
              qed
            qed
          qed
        qed
      qed
    qed
  qed
  then show "2 * length s + 1 < Suc n \<Longrightarrow> parse_members (Suc n) acc s \<noteq> OutOfFuel"
    and "parse_members (Suc n) acc s = Parsed v r \<Longrightarrow> length r < length s"
    by blast+
qed

lemma parse_fuel:
  "(\<forall>s. (2 * length s < n \<longrightarrow> parse_value n s \<noteq> OutOfFuel) \<and>
        (\<forall>v r. parse_value n s = Parsed v r \<longrightarrow> length r < length s)) \<and>
   (\<forall>s acc. (2 * length s + 1 < n \<longrightarrow> parse_elements n acc s \<noteq> OutOfFuel) \<and>
        (\<forall>v r. parse_elements n acc s = Parsed v r \<longrightarrow> length r < length s)) \<and>
   (\<forall>s acc. (2 * length s + 1 < n \<longrightarrow> parse_members n acc s \<noteq> OutOfFuel) \<and>
        (\<forall>v r. parse_members n acc s = Parsed v r \<longrightarrow> length r < length s))"
proof (induction n)
  case 0
  show ?case by simp
next
  case (Suc n)
  then have v1: "\<And>s. 2 * length s < n \<Longrightarrow> parse_value n s \<noteq> OutOfFuel"
    and v2: "\<And>s v r. parse_value n s = Parsed v r \<Longrightarrow> length r < length s"
    and e1: "\<And>s acc. 2 * length s + 1 < n \<Longrightarrow> parse_elements n acc s \<noteq> OutOfFuel"
    and e2: "\<And>s acc v r. parse_elements n acc s = Parsed v r \<Longrightarrow> length r < length s"
    and m1: "\<And>s acc. 2 * length s + 1 < n \<Longrightarrow> parse_members n acc s \<noteq> OutOfFuel"
    and m2: "\<And>s acc v r. parse_members n acc s = Parsed v r \<Longrightarrow> length r < length s"
    by blast+
  have "parse_value (Suc n) s \<noteq> OutOfFuel" if "2 * length s < Suc n" for s
    using that by (rule parse_value_step(1) [rotated -1]) (erule e1 e2 m1 m2)+
  moreover have "length r < length s" if "parse_value (Suc n) s = Parsed v r" for s v r
    using that by (rule parse_value_step(2) [rotated -1]) (erule e1 e2 m1 m2)+
  moreover have "parse_elements (Suc n) acc s \<noteq> OutOfFuel" if "2 * length s + 1 < Suc n"
    for s acc
    using that by (rule parse_elements_step(1) [rotated -1]) (erule v1 v2 e1 e2)+
  moreover have "length r < length s" if "parse_elements (Suc n) acc s = Parsed v r"
    for s acc v r
    using that by (rule parse_elements_step(2) [rotated -1]) (erule v1 v2 e1 e2)+
  moreover have "parse_members (Suc n) acc s \<noteq> OutOfFuel" if "2 * length s + 1 < Suc n"
    for s acc
    using that by (rule parse_members_step(1) [rotated -1]) (erule v1 v2 m1 m2)+
  moreover have "length r < length s" if "parse_members (Suc n) acc s = Parsed v r"
    for s acc v r
    using that by (rule parse_members_step(2) [rotated -1]) (erule v1 v2 m1 m2)+
  ultimately show ?case
    by blast
qed

lemma parse_value_fuel: "parse_value (2 * length s + 1) s \<noteq> OutOfFuel"
  using parse_fuel [of "2 * length s + 1"] by simp

section \<open>Properties of the table assembly\<close>

lemma foldl_flat:
  "foldl (\<lambda>A x. case f x of JArray ys \<Rightarrow> A @ ys | v \<Rightarrow> A @ [v]) A xs =
   A @ foldl (\<lambda>A x. case f x of JArray ys \<Rightarrow> A @ ys | v \<Rightarrow> A @ [v]) [] xs"
proof (induction xs arbitrary: A)
  case Nil
  show ?case by simp
next
  case (Cons x xs)
  show ?case
    by (subst (1 2) foldl_Cons) (subst (1 2) Cons.IH, simp split: js_value.splits)
qed

lemma flatMap_Nil: "flatMap [] f = []"
  by (simp add: flatMap_def)

lemma flatMap_Cons: "flatMap (x # xs) f = flatMap [x] f @ flatMap xs f"
  unfolding flatMap_def by (subst foldl_Cons, subst foldl_flat) simp

lemma flatMap_concat: "flatMap xs f = concat (map (\<lambda>x. flatMap [x] f) xs)"
  by (induction xs) (simp add: flatMap_Nil, subst flatMap_Cons, simp)

lemma flatMap_single: "flatMap [x] f = (case f x of JArray ys \<Rightarrow> ys | v \<Rightarrow> [v])"
  by (simp add: flatMap_def split: js_value.splits)

lemma assembleTables_single:
  "assembleTables [res] =
     (case JSON_parse res of
        None \<Rightarrow> []
      | Some (JObject kvs) \<Rightarrow>
          (case map_of kvs (js ''tables'') of
             None \<Rightarrow> []
           | Some (JArray ts) \<Rightarrow> ts
           | Some t \<Rightarrow> if truthy t then [t] else [])
      | Some _ \<Rightarrow> [])"
  by (simp add: assembleTables_def flatMap_single page_tables_def
      split: option.splits js_value.splits)

section \<open>The assembled tables\<close>

text \<open>
  Claim C3, as the code has it. The tables of a run are the contributions of the page
  results, concatenated in page order, and the contribution of one result does not
  depend on the others. A result contributes nothing when \<^verbatim>\<open>JSON.parse\<close> throws,
  when the parsed value is not an object (\<^verbatim>\<open>null\<close> included), and when the object
  has no \<^verbatim>\<open>tables\<close> property or a falsy one. When \<^verbatim>\<open>tables\<close> is an array the
  result contributes the elements of the array as they are: no element is checked
  for headers and rows. When \<^verbatim>\<open>tables\<close> is another truthy value, the result
  contributes that value as a single entry. For the three page results of the
  specification's example the output is the one table with headers \<^verbatim>\<open>a\<close> and the
  row \<^verbatim>\<open>1\<close>.
\<close>

theorem C3_table_assembly:
  \<open>assembleTables pageResults = concat (map (\<lambda>res. assembleTables [res]) pageResults) \<and>
   assembleTables [res] =
     (case JSON_parse res of
        None \<Rightarrow> []
      | Some (JObject kvs) \<Rightarrow>
          (case map_of kvs (js ''tables'') of
             None \<Rightarrow> []
           | Some (JArray ts) \<Rightarrow> ts
           | Some t \<Rightarrow> if truthy t then [t] else [])
      | Some _ \<Rightarrow> []) \<and>
   assembleTables [js ''{"tables":[{"headers":["a"],"rows":[["1"]]}]}'', js ''not json'',
                   js ''{"tables":[]}''] =
     [JObject [(js ''headers'', JArray [JString (js ''a'')]),
               (js ''rows'', JArray [JArray [JString (js ''1'')]])]]\<close>
proof -
  have \<open>assembleTables [js ''{"tables":[{"headers":["a"],"rows":[["1"]]}]}'', js ''not json'',
                   js ''{"tables":[]}''] =
     [JObject [(js ''headers'', JArray [JString (js ''a'')]),
               (js ''rows'', JArray [JArray [JString (js ''1'')]])]]\<close>
    by code_simp
  then show ?thesis
    using flatMap_concat [of pageResults page_tables] assembleTables_single [of res]
    by (simp only: assembleTables_def)
qed

text \<open>Against claim C3 as stated: a result whose \<^verbatim>\<open>tables\<close> holds a number and a
  string, and one whose \<^verbatim>\<open>tables\<close> is a number, do not match the shape, and
  contribute entries all the same.\<close>

theorem C3_counterexample_unchecked_shape:
  \<open>assembleTables [js ''{"tables":[1,"x"]}''] = [JNumber 1 0, JString (js ''x'')] \<and>
   assembleTables [js ''{"tables":[1,"x"]}''] \<noteq> [] \<and>
   assembleTables [js ''{"tables":7}''] = [JNumber 7 0]\<close>
  by code_simp

section \<open>Properties of the page loop\<close>

lemma page_status_twice:
  "page_status (page_status st j n) i n = page_status st i n"
  by (simp add: page_status_def)

lemmas page_loop_unfold = page_loop.simps
declare page_loop.simps [simp del]

lemma page_loop_success:
  assumes "\<forall>j. i \<le> j \<and> j < length ps \<longrightarrow>
             processPageWithGemini w j (dataUrl (ps ! j)) tgt = Inr (r j)"
  shows "page_loop w ps tgt i st prs tr =
           (Inr (prs @ map r [i..<length ps]),
            (if i < length ps then page_status st (length ps - 1) (length ps) else st),
            tr @ concat (map (page_events ps tgt st r) [i..<length ps]))"
  using assms
proof (induction "length ps - i" arbitrary: i st prs tr)
  case 0
  then show ?case by (simp add: page_loop_unfold)
next
  case (Suc d)
  then have i: "i < length ps" by simp
  from Suc.prems i have call: "processPageWithGemini w i (dataUrl (ps ! i)) tgt = Inr (r i)"
    by simp
  have d: "d = length ps - Suc i" using Suc.hyps(2) by simp
  have rest: "\<forall>j. Suc i \<le> j \<and> j < length ps \<longrightarrow>
      processPageWithGemini w j (dataUrl (ps ! j)) tgt = Inr (r j)"
    using Suc.prems by simp
  have ev: "page_events ps tgt (page_status st i (length ps)) r =
      page_events ps tgt st r"
    by (rule ext) (simp add: page_events_def page_status_twice)
  have upt: "[i..<length ps] = i # [Suc i..<length ps]"
    using i by (simp add: upt_conv_Cons)
  have last: "\<not> Suc i < length ps \<Longrightarrow> length ps - Suc 0 = i"
    using i by simp
  show ?case
    apply (subst page_loop_unfold)
    apply (simp only: i call if_True sum.case)
    apply (subst Suc.hyps(1) [OF d rest])
    apply (simp add: ev upt page_status_twice)
    apply (simp add: page_events_def last)
    done
qed

lemma page_loop_failure:
  assumes "k < length ps" "i \<le> k"
    and "\<forall>j. i \<le> j \<and> j < k \<longrightarrow>
             processPageWithGemini w j (dataUrl (ps ! j)) tgt = Inr (r j)"
    and "processPageWithGemini w k (dataUrl (ps ! k)) tgt = Inl err"
  shows "page_loop w ps tgt i st prs tr =
           (Inl err, page_status st k (length ps),
            tr @ concat (map (page_events ps tgt st r) [i..<k]) @
              [SetStatus (page_status st k (length ps)),
               CallGemini (dataUrl (ps ! k)) tgt, GeminiThrew err])"
  using assms
proof (induction "k - i" arbitrary: i st prs tr)
  case 0
  then have "i = k" by simp
  then show ?case
    using 0 by (subst page_loop_unfold) simp
next
  case (Suc d)
  then have i: "i < k" "i < length ps" by simp_all
  from Suc.prems i have call: "processPageWithGemini w i (dataUrl (ps ! i)) tgt = Inr (r i)"
    by simp
  have d: "d = k - Suc i" using Suc.hyps(2) by simp
  have le: "Suc i \<le> k" using i by simp
  have rest: "\<forall>j. Suc i \<le> j \<and> j < k \<longrightarrow>
      processPageWithGemini w j (dataUrl (ps ! j)) tgt = Inr (r j)"
    using Suc.prems by simp
  have ev: "page_events ps tgt (page_status st i (length ps)) r =
      page_events ps tgt st r"
    by (rule ext) (simp add: page_events_def page_status_twice)
  have upt: "[i..<k] = i # [Suc i..<k]"
    using i by (simp add: upt_conv_Cons)
  show ?case
    apply (subst page_loop_unfold)
    apply (simp only: i call if_True sum.case)
    apply (subst Suc.hyps(1) [OF d Suc.prems(1) le rest Suc.prems(4)])
    apply (simp add: ev upt page_status_twice)
    apply (simp add: page_events_def)
    done
qed

lemma filter_page_events:
  "filter is_inference_event (concat (map (page_events ps tgt st r) idx)) =
   concat (map (\<lambda>j. [CallGemini (dataUrl (ps ! j)) tgt, GeminiReturned (r j)]) idx)"
  by (induction idx) (simp_all add: page_events_def)

lemma filter_output_page_events:
  "filter is_output_event (concat (map (page_events ps tgt st r) idx)) = []"
  by (induction idx) (simp_all add: page_events_def)

lemma progress_page_events:
  "concat (map reported_progress (concat (map (page_events ps tgt st r) idx))) =
   map (\<lambda>j. progress (page_status st j (length ps))) idx"
  by (induction idx) (simp_all add: page_events_def)

lemma startConversion_failure:
  assumes "file_name a = Some f" "k < length (pages a)"
    and "\<forall>j<k. processPageWithGemini w j (dataUrl (pages a ! j)) (target a) = Inr (r j)"
    and "processPageWithGemini w k (dataUrl (pages a ! k)) (target a) = Inl err"
  shows "startConversion v w a =
           catch_block
             (a\<lparr>status := page_status (status_init (target a)) k (length (pages a))\<rparr>) err
             (SetStatus (status_init (target a)) #
              concat (map (page_events (pages a) (target a) (status_init (target a)) r) [0..<k]) @
              [SetStatus (page_status (status_init (target a)) k (length (pages a))),
               CallGemini (dataUrl (pages a ! k)) (target a), GeminiThrew err])"
proof -
  have "page_loop w (pages a) (target a) 0 (status_init (target a)) []
          [SetStatus (status_init (target a))] =
        (Inl err, page_status (status_init (target a)) k (length (pages a)),
         [SetStatus (status_init (target a))] @
         concat (map (page_events (pages a) (target a) (status_init (target a)) r) [0..<k]) @
         [SetStatus (page_status (status_init (target a)) k (length (pages a))),
          CallGemini (dataUrl (pages a ! k)) (target a), GeminiThrew err])"
    using assms by (intro page_loop_failure) simp_all
  moreover have "pages a \<noteq> []"
    using assms(2) by auto
  ultimately show ?thesis
    using assms(1) by (simp add: startConversion_def)
qed

lemma startConversion_pages_done:
  assumes "file_name a = Some f" "pages a \<noteq> []"
    and "\<forall>j<length (pages a).
           processPageWithGemini w j (dataUrl (pages a ! j)) (target a) = Inr (r j)"
  shows "page_loop w (pages a) (target a) 0 (status_init (target a)) []
          [SetStatus (status_init (target a))] =
        (Inr (map r [0..<length (pages a)]),
         page_status (status_init (target a)) (length (pages a) - 1) (length (pages a)),
         SetStatus (status_init (target a)) #
         concat (map (page_events (pages a) (target a) (status_init (target a)) r)
                   [0..<length (pages a)]))"
  using assms page_loop_success [of 0 "pages a" w "target a" r "status_init (target a)" "[]"
      "[SetStatus (status_init (target a))]"]
  by simp

lemma calls_page_events:
  "concat (map gemini_call (concat (map (page_events ps tgt st r) idx))) =
   map (\<lambda>j. (dataUrl (ps ! j), tgt)) idx"
  by (induction idx) (simp_all add: page_events_def)

lemma map_nth_upt: "map (\<lambda>j. f (ps ! j)) [0..<length ps] = map f ps"
  by (rule nth_equalityI) simp_all

lemma triggerDownload_events:
  "filter is_inference_event (fst (triggerDownload v w t d f)) = [] \<and>
   concat (map gemini_call (fst (triggerDownload v w t d f))) = [] \<and>
   concat (map reported_progress (fst (triggerDownload v w t d f))) = []"
  by (simp add: triggerDownload_def)

lemma startConversion_success_state:
  assumes "file_name a = Some f" "pages a \<noteq> []"
    and "\<forall>j<length (pages a).
           processPageWithGemini w j (dataUrl (pages a ! j)) (target a) = Inr (r j)"
  shows "\<exists>st tail. startConversion v w a =
           (a\<lparr>status := st,
              conversionResult := Some (assemble (target a) (map r [0..<length (pages a)]))\<rparr>,
            SetStatus (status_init (target a)) #
            concat (map (page_events (pages a) (target a) (status_init (target a)) r)
                      [0..<length (pages a)]) @
            [SetStatus status_finalizing,
             SetConversionResult (assemble (target a) (map r [0..<length (pages a)]))] @
            fst (triggerDownload v w (target a)
                   (assemble (target a) (map r [0..<length (pages a)])) f) @ tail) \<and>
           (\<forall>e\<in>set tail. \<not> is_inference_event e \<and> gemini_call e = []) \<and>
           (snd (triggerDownload v w (target a)
                   (assemble (target a) (map r [0..<length (pages a)])) f) = None \<longrightarrow>
              st = status_complete \<and> tail = [SetStatus status_complete])"
proof -
  let ?d = "assemble (target a) (map r [0..<length (pages a)])"
  obtain calls thrown where td: "triggerDownload v w (target a) ?d f = (calls, thrown)"
    by (cases "triggerDownload v w (target a) ?d f")
  show ?thesis
  proof (cases thrown)
    case None
    show ?thesis
      apply (rule exI [of _ status_complete])
      apply (rule exI [of _ "[SetStatus status_complete]"])
      using assms(1,2) td None
      by (simp add: startConversion_def startConversion_pages_done [OF assms])
  next
    case (Some err)
    show ?thesis
    proof (cases err)
      case ThrownNullish
      show ?thesis
        apply (rule exI [of _ status_finalizing])
        apply (rule exI [of _ "[ConsoleError err, UncaughtTypeError]"])
        using assms(1,2) td Some ThrownNullish
        by (simp add: startConversion_def startConversion_pages_done [OF assms]
            catch_block_def)
    next
      case (Thrown m)
      show ?thesis
        apply (rule exI [of _ "status_error m"])
        apply (rule exI [of _ "[ConsoleError err, SetStatus (status_error m)]"])
        using assms(1,2) td Some Thrown
        by (simp add: startConversion_def startConversion_pages_done [OF assms]
            catch_block_def)
    qed
  qed
qed

section \<open>Runs of \<^verbatim>\<open>startConversion\<close>\<close>

text \<open>
  Claim C2. In a run with a file and \<open>N > 0\<close> pages in which no inference call
  throws, the inference client is called exactly \<open>N\<close> times, with the images of the
  pages in page order; each call has returned before the next one is made (the
  inference events alternate call, return, call, return); and the result stored by
  the run is assembled from the returned texts in page order.
\<close>

theorem C2_sequential_in_order:
  assumes "file_name a = Some f" "pages a \<noteq> []"
    and "\<forall>j<length (pages a).
           processPageWithGemini w j (dataUrl (pages a ! j)) (target a) = Inr (r j)"
  shows "gemini_calls (snd (startConversion v w a)) =
           map (\<lambda>p. (dataUrl p, target a)) (pages a) \<and>
         length (gemini_calls (snd (startConversion v w a))) = length (pages a) \<and>
         filter is_inference_event (snd (startConversion v w a)) =
           concat (map (\<lambda>j. [CallGemini (dataUrl (pages a ! j)) (target a),
                              GeminiReturned (r j)]) [0..<length (pages a)]) \<and>
         conversionResult (fst (startConversion v w a)) =
           Some (assemble (target a) (map r [0..<length (pages a)]))"
proof -
  obtain st tail where run: "startConversion v w a =
      (a\<lparr>status := st,
         conversionResult := Some (assemble (target a) (map r [0..<length (pages a)]))\<rparr>,
       SetStatus (status_init (target a)) #
       concat (map (page_events (pages a) (target a) (status_init (target a)) r)
                 [0..<length (pages a)]) @
       [SetStatus status_finalizing,
        SetConversionResult (assemble (target a) (map r [0..<length (pages a)]))] @
       fst (triggerDownload v w (target a)
              (assemble (target a) (map r [0..<length (pages a)])) f) @ tail)"
    and tail: "\<forall>e\<in>set tail. \<not> is_inference_event e \<and> gemini_call e = []"
    using startConversion_success_state [OF assms] by blast
  have t1: "filter is_inference_event tail = []"
    using tail by (simp add: filter_empty_conv)
  have t2: "concat (map gemini_call tail) = []"
    using tail by simp
  have calls: "gemini_calls (snd (startConversion v w a)) =
      map (\<lambda>p. (dataUrl p, target a)) (pages a)"
    using map_nth_upt [of "\<lambda>p. (dataUrl p, target a)" "pages a"]
    by (simp add: run gemini_calls_def calls_page_events triggerDownload_events t2)
  moreover have "filter is_inference_event (snd (startConversion v w a)) =
      concat (map (\<lambda>j. [CallGemini (dataUrl (pages a ! j)) (target a),
                         GeminiReturned (r j)]) [0..<length (pages a)])"
    by (simp add: run filter_page_events triggerDownload_events t1)
  ultimately show ?thesis
    by (simp add: run)
qed

lemma example_world_returns:
  "processPageWithGemini example_world j img t = Inr (js ''text of '' @ img)"
  by (simp add: example_world_def)

lemma failing_world_call:
  "processPageWithGemini (failing_world k err) j img t =
     (if j = k then Inl err else Inr (js ''text of '' @ img))"
  by (simp add: failing_world_def example_world_def)

lemma example_app_simps:
  "file_name (example_app ps) = Some (js ''doc.pdf'')" "pages (example_app ps) = ps"
  "target (example_app ps) = WORD" "status (example_app ps) = status_idle"
  "conversionResult (example_app ps) = None"
  by (simp_all add: example_app_def)

lemma three_pages_simps:
  "length three_pages = 3" "dataUrl (three_pages ! 0) = js ''p1''"
  "dataUrl (three_pages ! 1) = js ''p2''" "dataUrl (three_pages ! 2) = js ''p3''"
  "dataUrl (three_pages ! Suc 0) = js ''p2''"
  "three_pages \<noteq> []"
  by (simp_all add: three_pages_def)

theorem C2_sequential_in_order_witness:
  "gemini_calls (snd (startConversion App_tsx example_world (example_app three_pages))) =
     [(js ''p1'', WORD), (js ''p2'', WORD), (js ''p3'', WORD)] \<and>
   conversionResult (fst (startConversion App_tsx example_world (example_app three_pages))) =
     Some \<lparr>tables = None,
           markdown = Some (js ''text of p1'' @ PAGE_BREAK @ js ''text of p2'' @ PAGE_BREAK @
                            js ''text of p3'')\<rparr>"
proof -
  have "map (\<lambda>j. js ''text of '' @ dataUrl (three_pages ! j)) [0..<3] =
      [js ''text of p1'', js ''text of p2'', js ''text of p3'']"
    by (simp add: upt_rec three_pages_def js_def)
  then show ?thesis
    using C2_sequential_in_order [of "example_app three_pages" "js ''doc.pdf''" example_world
        "\<lambda>j. js ''text of '' @ dataUrl (three_pages ! j)" App_tsx]
    by (simp add: example_app_simps example_world_returns three_pages_simps assemble_def
        join_Cons) (simp add: three_pages_def js_def)
qed

text \<open>
  Claim C1, as the code has it. In a run with a file, if the inference call of page
  \<open>k\<close> throws after the calls of the pages before it have returned, then the calls
  made are those of the pages up to \<open>k\<close>, in order, and none of a later page; no
  result is stored and no emitter is called; the stored result of the component is
  the one from before the run. When the message of the thrown value can be read
  (the value is neither \<^verbatim>\<open>null\<close> nor \<^verbatim>\<open>undefined\<close>), the run ends with the error
  status, which is also the last event, and the error of that status is the message
  when it is truthy (a string: when it is not empty) and the fixed text
  \<^verbatim>\<open>Something went wrong during conversion.\<close> when the message is absent, empty or
  otherwise falsy.
\<close>

theorem C1_fail_fast:
  assumes "file_name a = Some f" "k < length (pages a)"
    and "\<forall>j<k. processPageWithGemini w j (dataUrl (pages a ! j)) (target a) = Inr (r j)"
    and "processPageWithGemini w k (dataUrl (pages a ! k)) (target a) = Inl err"
  shows "filter is_inference_event (snd (startConversion v w a)) =
           concat (map (\<lambda>j. [CallGemini (dataUrl (pages a ! j)) (target a),
                              GeminiReturned (r j)]) [0..<k]) @
           [CallGemini (dataUrl (pages a ! k)) (target a), GeminiThrew err] \<and>
         gemini_calls (snd (startConversion v w a)) =
           map (\<lambda>p. (dataUrl p, target a)) (take (Suc k) (pages a)) \<and>
         filter is_output_event (snd (startConversion v w a)) = [] \<and>
         conversionResult (fst (startConversion v w a)) = conversionResult a \<and>
         (\<forall>m. err = Thrown m \<longrightarrow>
            status (fst (startConversion v w a)) =
              \<lparr>step = js ''Error occurred'', progress = 0, isProcessing = False,
               error = Some (case m of
                   Undefined \<Rightarrow> StringValue (js ''Something went wrong during conversion.'')
                 | StringValue t \<Rightarrow>
                     if t = [] then StringValue (js ''Something went wrong during conversion.'')
                     else StringValue t
                 | OtherValue truthy_value ident \<Rightarrow>
                     if truthy_value then OtherValue truthy_value ident
                     else StringValue (js ''Something went wrong during conversion.''))\<rparr> \<and>
            last (snd (startConversion v w a)) =
              SetStatus (status (fst (startConversion v w a))))"
proof -
  note run = startConversion_failure [OF assms, of v]
  have "map (\<lambda>j. (dataUrl (pages a ! j), target a)) [0..<k] @
        [(dataUrl (pages a ! k), target a)] =
        map (\<lambda>p. (dataUrl p, target a)) (take (Suc k) (pages a))"
    using assms(2) by (simp add: take_Suc_conv_app_nth map_nth_upt [of _ "take k (pages a)", symmetric])
  then have calls: "gemini_calls (snd (startConversion v w a)) =
      map (\<lambda>p. (dataUrl p, target a)) (take (Suc k) (pages a))"
    by (cases err) (simp_all add: run catch_block_def gemini_calls_def calls_page_events)
  show ?thesis
  proof (cases err)
    case ThrownNullish
    with calls show ?thesis
      by (simp add: run catch_block_def filter_page_events filter_output_page_events)
  next
    case (Thrown m)
    with calls show ?thesis
      by (simp add: run catch_block_def filter_page_events filter_output_page_events
          status_error_def error_value_def)
  qed
qed

theorem C1_fail_fast_witness:
  "filter is_inference_event
     (snd (startConversion App_tsx
             (failing_world 1 (Thrown (StringValue (js ''quota exceeded''))))
             (example_app three_pages))) =
     [CallGemini (js ''p1'') WORD, GeminiReturned (js ''text of p1''),
      CallGemini (js ''p2'') WORD,
      GeminiThrew (Thrown (StringValue (js ''quota exceeded'')))] \<and>
   filter is_output_event
     (snd (startConversion App_tsx
             (failing_world 1 (Thrown (StringValue (js ''quota exceeded''))))
             (example_app three_pages))) = [] \<and>
   error (status
     (fst (startConversion App_tsx
             (failing_world 1 (Thrown (StringValue (js ''quota exceeded''))))
             (example_app three_pages)))) = Some (StringValue (js ''quota exceeded''))"
  using C1_fail_fast [of "example_app three_pages" "js ''doc.pdf''" 1
      "failing_world 1 (Thrown (StringValue (js ''quota exceeded'')))"
      "\<lambda>j. js ''text of '' @ dataUrl (three_pages ! j)"
      "Thrown (StringValue (js ''quota exceeded''))" App_tsx]
  by (simp add: example_app_simps failing_world_call three_pages_simps)
    (simp add: js_def)

text \<open>Against claim C1 as stated: the call of the second page throws a value whose
  message is empty, and the status shows the fixed text, not the message.\<close>

theorem C1_counterexample_empty_message:
  "processPageWithGemini (failing_world 1 (Thrown (StringValue []))) 1
     (dataUrl (pages (example_app three_pages) ! 1)) (target (example_app three_pages)) =
     Inl (Thrown (StringValue [])) \<and>
   error (status (fst (startConversion App_tsx (failing_world 1 (Thrown (StringValue [])))
                         (example_app three_pages)))) =
     Some (StringValue (js ''Something went wrong during conversion.'')) \<and>
   error (status (fst (startConversion App_tsx (failing_world 1 (Thrown (StringValue [])))
                         (example_app three_pages)))) \<noteq>
     Some (message (Thrown (StringValue [])))"
  using startConversion_failure [of "example_app three_pages" "js ''doc.pdf''" 1
      "failing_world 1 (Thrown (StringValue []))"
      "\<lambda>j. js ''text of '' @ dataUrl (three_pages ! j)"
      "Thrown (StringValue [])" App_tsx]
  by (simp add: example_app_simps failing_world_call three_pages_simps catch_block_def
      status_error_def error_value_def js_def)

text \<open>
  The case the statement of C1 above leaves open: the thrown value is \<^verbatim>\<open>null\<close> or
  \<^verbatim>\<open>undefined\<close>. The \<^verbatim>\<open>catch\<close> block then throws while it reads the message: no
  error status is set, the status stays the one of page \<open>k\<close> with \<^verbatim>\<open>isProcessing\<close>
  still true, and the TypeError is the last event of the run.
\<close>

lemma startConversion_nullish_throw:
  assumes "file_name a = Some f" "k < length (pages a)"
    and "\<forall>j<k. processPageWithGemini w j (dataUrl (pages a ! j)) (target a) = Inr (r j)"
    and "processPageWithGemini w k (dataUrl (pages a ! k)) (target a) = Inl ThrownNullish"
  shows "status (fst (startConversion v w a)) =
           page_status (status_init (target a)) k (length (pages a)) \<and>
         isProcessing (status (fst (startConversion v w a))) \<and>
         error (status (fst (startConversion v w a))) = None \<and>
         last (snd (startConversion v w a)) = UncaughtTypeError"
  by (simp add: startConversion_failure [OF assms, of v] catch_block_def page_status_def
      status_init_def)

text \<open>
  Claim C8, as the code has it. Without pages \<^verbatim>\<open>startConversion\<close> returns at once:
  the state of the component is unchanged (so no error is reported) and the run has
  no events, in particular no inference call.
\<close>

theorem C8_no_pages_returns_at_once:
  "length (pages a) = 0 \<Longrightarrow> startConversion v w a = (a, [])"
  by (simp add: startConversion_def split: option.splits)

theorem C8_no_pages_returns_at_once_witness:
  "length (pages (example_app [])) = 0 \<and>
   startConversion App_tsx example_world (example_app []) = (example_app [], [])"
  using C8_no_pages_returns_at_once [of "example_app []" App_tsx example_world]
  by (simp add: example_app_simps)

text \<open>Against claim C8 as stated: after a run without pages the status holds no
  error, and nothing was reported.\<close>

theorem C8_counterexample_no_error_reported:
  "pages (example_app []) = [] \<and>
   error (status (fst (startConversion App_tsx example_world (example_app [])))) = None \<and>
   snd (startConversion App_tsx example_world (example_app [])) = []"
  by (simp add: startConversion_def example_app_def status_idle_def)

section \<open>Properties of the rounding\<close>

text \<open>\<open>binade\<close> is the exponent of its argument, and \<open>fl64\<close> is monotone on the
  numbers that are not negative and leaves 0, 1 and 85 as they are.\<close>

lemma rhe_floor: "\<lfloor>z\<rfloor> \<le> round_half_even z"
  by (simp add: round_half_even_def)

lemma rhe_le: "round_half_even z \<le> \<lfloor>z\<rfloor> + 1"
  by (simp add: round_half_even_def)

lemma rhe_of_int [simp]: "round_half_even (of_int k) = k"
  by (simp add: round_half_even_def)

lemma rhe_le_int: "z \<le> of_int k \<Longrightarrow> round_half_even z \<le> k"
proof (cases "z = of_int k")
  case True
  then show ?thesis by simp
next
  case False
  assume "z \<le> of_int k"
  with False have "z < of_int k" by simp
  then have "\<lfloor>z\<rfloor> < k" by (simp add: floor_less_iff)
  then show ?thesis using rhe_le [of z] by linarith
qed

lemma rhe_ge_int: "of_int k \<le> z \<Longrightarrow> k \<le> round_half_even z"
proof -
  assume "of_int k \<le> z"
  then have "k \<le> \<lfloor>z\<rfloor>" by (simp add: le_floor_iff)
  then show ?thesis using rhe_floor [of z] by linarith
qed

lemma rhe_mono: "z \<le> z' \<Longrightarrow> round_half_even z \<le> round_half_even z'"
proof (cases "\<lfloor>z\<rfloor> = \<lfloor>z'\<rfloor>")
  case True
  assume "z \<le> z'"
  then show ?thesis
    unfolding round_half_even_def True by auto
next
  case False
  assume "z \<le> z'"
  then have "\<lfloor>z\<rfloor> \<le> \<lfloor>z'\<rfloor>" by (rule floor_mono)
  with False have "\<lfloor>z\<rfloor> + 1 \<le> \<lfloor>z'\<rfloor>" by simp
  then show ?thesis using rhe_le [of z] rhe_floor [of z'] by linarith
qed

lemma binade_bounds:
  assumes "0 < x"
  shows "2 powi binade x \<le> x \<and> x < 2 powi (binade x + 1)"
proof -
  obtain p q where pq: "quotient_of x = (p, q)" by (cases "quotient_of x")
  then have q: "0 < q" by (rule quotient_of_denom_pos)
  have x: "x = of_int p / of_int q" using pq by (rule quotient_of_div)
  have p: "0 < p" using assms q unfolding x by (simp add: zero_less_divide_iff)
  have bp: "1 \<le> bitlen p" "1 \<le> bitlen q"
    using p q bitlen_eq_zero_iff [of p] bitlen_eq_zero_iff [of q] bitlen_nonneg [of p]
      bitlen_nonneg [of q] by linarith+
  have "(2::rat) powi (bitlen p - 1) = of_int (2 ^ nat (bitlen p - 1))"
    "(2::rat) powi bitlen p = of_int (2 ^ nat (bitlen p))"
    "(2::rat) powi (bitlen q - 1) = of_int (2 ^ nat (bitlen q - 1))"
    "(2::rat) powi bitlen q = of_int (2 ^ nat (bitlen q))"
    using bp by (simp_all add: power_int_def)
  then have P: "(2::rat) powi (bitlen p - 1) \<le> of_int p" "of_int p < (2::rat) powi bitlen p"
    and Q: "(2::rat) powi (bitlen q - 1) \<le> of_int q" "of_int q < (2::rat) powi bitlen q"
    using bitlen_bounds [OF p] bitlen_bounds [OF q] by (simp_all only: of_int_le_iff of_int_less_iff)
  have xq: "x * of_int q = of_int p" using q unfolding x by simp
  have "x * 2 powi (bitlen q - 1) \<le> x * of_int q"
    using Q(1) assms by (simp add: mult_left_mono)
  also have "\<dots> < 2 powi bitlen p" using P(2) xq by simp
  finally have "x < 2 powi bitlen p / 2 powi (bitlen q - 1)"
    by (simp add: pos_less_divide_eq)
  also have "\<dots> = 2 powi (bitlen p - bitlen q + 1)"
    by (simp add: power_int_diff [symmetric] algebra_simps)
  finally have up: "x < 2 powi (bitlen p - bitlen q + 1)" .
  have "2 powi (bitlen p - 1) \<le> x * of_int q" using P(1) xq by simp
  also have "\<dots> < x * 2 powi bitlen q"
    using Q(2) assms by (simp add: mult_strict_left_mono)
  finally have "2 powi (bitlen p - 1) / 2 powi bitlen q < x"
    by (simp add: pos_divide_less_eq)
  moreover have "(2::rat) powi (bitlen p - 1) / 2 powi bitlen q = 2 powi (bitlen p - bitlen q - 1)"
    by (simp add: power_int_diff [symmetric] algebra_simps)
  ultimately have lo: "2 powi (bitlen p - bitlen q - 1) < x" by simp
  show ?thesis
  proof (cases "2 powi (bitlen p - bitlen q) \<le> x")
    case True
    then show ?thesis using up by (simp add: binade_def pq)
  next
    case False
    then show ?thesis using lo by (simp add: binade_def pq)
  qed
qed

lemma binade_unique:
  assumes "0 < x" "2 powi e \<le> x" "x < 2 powi (e + 1)"
  shows "binade x = e"
proof (rule ccontr)
  assume ne: "binade x \<noteq> e"
  note b = binade_bounds [OF assms(1)]
  show False
  proof (cases "binade x < e")
    case True
    then have "(2::rat) powi (binade x + 1) \<le> 2 powi e"
      by (intro power_int_increasing) simp_all
    with b assms(2) show False by simp
  next
    case False
    with ne have "(2::rat) powi (e + 1) \<le> 2 powi binade x"
      by (intro power_int_increasing) simp_all
    with b assms(3) show False by simp
  qed
qed

lemma binade_mono:
  assumes "0 < x" "x \<le> y"
  shows "binade x \<le> binade y"
proof (rule ccontr)
  assume "\<not> binade x \<le> binade y"
  then have "(2::rat) powi (binade y + 1) \<le> 2 powi binade x"
    by (intro power_int_increasing) simp_all
  moreover have "0 < y" using assms by simp
  ultimately show False
    using binade_bounds [OF assms(1)] binade_bounds [OF \<open>0 < y\<close>] assms(2) by simp
qed

lemma fl64_pos:
  "0 < x \<Longrightarrow>
   fl64 x = of_int (round_half_even (x / 2 powi (max (binade x) (- 1022) - 52))) *
            2 powi (max (binade x) (- 1022) - 52)"
  by (simp add: fl64_def)

lemma rhe_nonneg: "0 \<le> z \<Longrightarrow> 0 \<le> round_half_even z"
  using rhe_ge_int [of 0 z] by simp

lemma fl64_nonneg: "0 \<le> x \<Longrightarrow> 0 \<le> fl64 x"
proof (cases "x = 0")
  case True
  then show ?thesis by (simp add: fl64_def)
next
  case False
  assume "0 \<le> x"
  with False have x: "0 < x" by simp
  have "0 \<le> round_half_even (x / 2 powi (max (binade x) (- 1022) - 52))"
    using x by (intro rhe_nonneg) simp
  then show ?thesis
    unfolding fl64_pos [OF x] by simp
qed

lemma fl64_mono_pos:
  assumes x: "0 < x" and xy: "x \<le> y"
  shows "fl64 x \<le> fl64 y"
proof -
  have y: "0 < y" using assms by simp
  define ex where "ex = max (binade x) (- 1022)"
  define ey where "ey = max (binade y) (- 1022)"
  have le: "ex \<le> ey"
    using binade_mono [OF x xy] by (simp add: ex_def ey_def)
  have fx: "fl64 x = of_int (round_half_even (x / 2 powi (ex - 52))) * 2 powi (ex - 52)"
    and fy: "fl64 y = of_int (round_half_even (y / 2 powi (ey - 52))) * 2 powi (ey - 52)"
    using fl64_pos [OF x] fl64_pos [OF y] by (simp_all add: ex_def ey_def)
  show ?thesis
  proof (cases "ex = ey")
    case True
    have "x / 2 powi (ey - 52) \<le> y / 2 powi (ey - 52)"
      using xy by (simp add: divide_right_mono)
    then have "round_half_even (x / 2 powi (ey - 52)) \<le> round_half_even (y / 2 powi (ey - 52))"
      by (rule rhe_mono)
    then show ?thesis
      unfolding fx fy True by (simp add: mult_right_mono)
  next
    case False
    with le have lt: "ex < ey" by simp
    then have ey: "ey = binade y" by (auto simp: ex_def ey_def)
    have "x < 2 powi (binade x + 1)" using binade_bounds [OF x] by simp
    also have "\<dots> \<le> 2 powi (ex + 1)"
      by (intro power_int_increasing) (simp_all add: ex_def)
    finally have "x / 2 powi (ex - 52) < 2 powi (ex + 1) / 2 powi (ex - 52)"
      by (simp add: divide_strict_right_mono)
    also have "(2::rat) powi (ex + 1) / 2 powi (ex - 52) = 2 powi 53"
      by (simp add: power_int_diff [symmetric])
    finally have "x / 2 powi (ex - 52) \<le> of_int (2 ^ 53)"
      by simp
    then have "round_half_even (x / 2 powi (ex - 52)) \<le> 2 ^ 53"
      by (rule rhe_le_int)
    then have "rat_of_int (round_half_even (x / 2 powi (ex - 52))) \<le> of_int (2 ^ 53)"
      by (simp only: of_int_le_iff)
    moreover have "(0::rat) \<le> 2 powi (ex - 52)" by simp
    ultimately have "fl64 x \<le> of_int (2 ^ 53) * 2 powi (ex - 52)"
      unfolding fx by (rule mult_right_mono)
    also have "of_int (2 ^ 53) * 2 powi (ex - 52) = (2::rat) powi (ex + 1)"
    proof -
      have "ex + 1 = 53 + (ex - 52)" by simp
      then have "(2::rat) powi (ex + 1) = 2 powi (53 + (ex - 52))" by (rule arg_cong)
      also have "\<dots> = 2 powi 53 * 2 powi (ex - 52)" by (rule power_int_add) simp
      finally show ?thesis by simp
    qed
    also have "\<dots> \<le> 2 powi ey"
      using lt by (intro power_int_increasing) simp_all
    finally have low: "fl64 x \<le> 2 powi ey" .
    have "(2::rat) powi ey / 2 powi (ey - 52) \<le> y / 2 powi (ey - 52)"
      using binade_bounds [OF y] unfolding ey [symmetric] by (simp add: divide_right_mono)
    moreover have "(2::rat) powi ey / 2 powi (ey - 52) = 2 powi 52"
      by (simp add: power_int_diff [symmetric])
    ultimately have "of_int (2 ^ 52) \<le> y / 2 powi (ey - 52)"
      by simp
    then have "2 ^ 52 \<le> round_half_even (y / 2 powi (ey - 52))"
      by (rule rhe_ge_int)
    then have "rat_of_int (2 ^ 52) \<le> of_int (round_half_even (y / 2 powi (ey - 52)))"
      by (simp only: of_int_le_iff)
    moreover have "(0::rat) \<le> 2 powi (ey - 52)" by simp
    ultimately have "of_int (2 ^ 52) * 2 powi (ey - 52) \<le> fl64 y"
      unfolding fy by (rule mult_right_mono)
    moreover have "of_int (2 ^ 52) * 2 powi (ey - 52) = (2::rat) powi ey"
    proof -
      have "ey = 52 + (ey - 52)" by simp
      then have "(2::rat) powi ey = 2 powi (52 + (ey - 52))" by (rule arg_cong)
      also have "\<dots> = 2 powi 52 * 2 powi (ey - 52)" by (rule power_int_add) simp
      finally show ?thesis by simp
    qed
    ultimately have "2 powi ey \<le> fl64 y" by simp
    with low show ?thesis by simp
  qed
qed

lemma fl64_mono: "0 \<le> x \<Longrightarrow> x \<le> y \<Longrightarrow> fl64 x \<le> fl64 y"
proof (cases "x = 0")
  case True
  assume "x \<le> y"
  with True have "0 \<le> y" by simp
  then show ?thesis using True fl64_nonneg [of y] by (simp add: fl64_def)
next
  case False
  assume "0 \<le> x" "x \<le> y"
  with False show ?thesis by (intro fl64_mono_pos) simp_all
qed

lemma fl64_exact: "fl64 0 = 0" "fl64 1 = 1" "fl64 85 = 85"
  by code_simp+

section \<open>Progress\<close>

lemma progress_page_status: "progress (page_status st i n) = page_progress i n"
  by (simp add: page_status_def)

lemma page_progress_bounds:
  assumes "i < n"
  shows "5 \<le> page_progress i n \<and> page_progress i n \<le> 90"
proof -
  have q: "0 \<le> (of_nat i / of_nat n :: rat)" "(of_nat i / of_nat n :: rat) \<le> 1"
    using assms by simp_all
  have x: "0 \<le> fl64 (of_nat i / of_nat n)" "fl64 (of_nat i / of_nat n) \<le> 1"
    using fl64_nonneg [OF q(1)] fl64_mono [OF q] by (simp_all add: fl64_exact)
  then have y: "0 \<le> fl64 (of_nat i / of_nat n) * 85" "fl64 (of_nat i / of_nat n) * 85 \<le> 85"
    by simp_all
  have "0 \<le> fl64 (fl64 (of_nat i / of_nat n) * 85)"
    "fl64 (fl64 (of_nat i / of_nat n) * 85) \<le> 85"
    using fl64_nonneg [OF y(1)] fl64_mono [OF y] by (simp_all add: fl64_exact)
  then have "0 \<le> \<lfloor>fl64 (fl64 (of_nat i / of_nat n) * 85)\<rfloor>"
    "\<lfloor>fl64 (fl64 (of_nat i / of_nat n) * 85)\<rfloor> \<le> 85"
    by (simp_all add: floor_le_iff)
  then show ?thesis by (simp add: page_progress_def)
qed

lemma page_progress_mono:
  assumes "i \<le> j"
  shows "page_progress i n \<le> page_progress j n"
proof -
  have q: "0 \<le> (of_nat i / of_nat n :: rat)" by simp
  have "(of_nat i / of_nat n :: rat) \<le> of_nat j / of_nat n"
    using assms by (simp add: divide_right_mono)
  then have le: "fl64 (of_nat i / of_nat n) \<le> fl64 (of_nat j / of_nat n)"
    by (rule fl64_mono [OF q])
  have "0 \<le> fl64 (of_nat i / of_nat n) * 85"
    using fl64_nonneg [OF q] by simp
  moreover have "fl64 (of_nat i / of_nat n) * 85 \<le> fl64 (of_nat j / of_nat n) * 85"
    using le by simp
  ultimately have "fl64 (fl64 (of_nat i / of_nat n) * 85) \<le>
      fl64 (fl64 (of_nat j / of_nat n) * 85)"
    by (rule fl64_mono)
  then show ?thesis
    by (simp add: page_progress_def floor_mono)
qed

lemma sorted_page_progress: "sorted (map (\<lambda>i. page_progress i n) [0..<n])"
proof -
  have "sorted_wrt (\<lambda>i j. page_progress i n \<le> page_progress j n) [0..<n]"
    by (rule sorted_wrt_mono_rel [of _ "(\<le>)"])
      (auto intro: page_progress_mono)
  then show ?thesis
    by (simp add: sorted_map)
qed

text \<open>
  Up to ten pages the rounded computation gives the same value as the exact one; all
  55 cases are computed. Ten is the most a run can have: the page extraction stops
  there. Beyond that the two can differ: for page 49 of 85 the program computes 53
  where exact arithmetic gives 54.
\<close>

lemma page_progress_cap_table:
  "list_all (\<lambda>n. list_all (\<lambda>i. page_progress i n = 5 + \<lfloor>(of_nat i / of_nat n :: rat) * 85\<rfloor>) [0..<n])
     [0..<11]"
  by code_simp

lemma page_progress_exact_up_to_cap:
  assumes "n \<le> 10" "i < n"
  shows "page_progress i n = 5 + \<lfloor>(of_nat i / of_nat n :: rat) * 85\<rfloor>"
proof -
  have "n \<in> set [0..<11]" "i \<in> set [0..<n]" using assms by simp_all
  then show ?thesis
    using page_progress_cap_table unfolding list_all_iff by blast
qed

lemma page_progress_beyond_cap:
  "page_progress 49 85 = 53 \<and> 5 + \<lfloor>(of_nat 49 / of_nat 85 :: rat) * 85\<rfloor> = (54::int)"
  by code_simp

lemma length_concat_le:
  "(\<And>x. length (f x) \<le> 1) \<Longrightarrow> length (concat (map f xs)) \<le> length xs"
proof (induction xs)
  case Nil
  show ?case by simp
next
  case (Cons x xs)
  then have "length (f x) \<le> 1" "length (concat (map f xs)) \<le> length xs"
    by simp_all
  then show ?case by simp
qed

lemma selected_pages_cap: "length (selected_pages f) \<le> 10"
proof (cases f)
  case (PdfFile rendered)
  have "length (extractPagesAsImages rendered) \<le> length [1..<Suc (min (length rendered) 10)]"
    unfolding extractPagesAsImages_def
    by (rule length_concat_le) (simp split: option.splits)
  also have "\<dots> = min (length rendered) 10"
    by (simp only: length_upt)
  also have "\<dots> \<le> 10" by simp
  finally show ?thesis using PdfFile by (simp add: selected_pages_def)
next
  case (ImageFile url)
  then show ?thesis by (simp add: selected_pages_def)
qed

text \<open>
  Claim C7. Take a run with a file and \<open>N > 0\<close> pages in which no inference call and
  no emitter throws. The events of the run are: the initial status with progress 5;
  for each page \<open>i\<close> in order, the status for that page and then the call for the
  page and its return; the status with progress 95, the stored result and the
  emitter call; the status with progress 100. The progress of the status for page
  \<open>i\<close> is the value of \<^verbatim>\<open>5 + Math.floor((i / N) * 85)\<close> in the arithmetic of the
  program, and with at most ten pages, which is every run of pages the component
  selects, it is \<open>5 + floor ((i / N) * 85)\<close> in exact arithmetic. The reported
  progress values are non-decreasing and end with 100.
\<close>

theorem C7_progress:
  assumes "file_name a = Some f" "pages a \<noteq> []"
    and "\<forall>j<length (pages a).
           processPageWithGemini w j (dataUrl (pages a ! j)) (target a) = Inr (r j)"
    and "snd (triggerDownload v w (target a)
                (assemble (target a) (map r [0..<length (pages a)])) f) = None"
  shows "snd (startConversion v w a) =
           SetStatus (status_init (target a)) #
           concat (map (\<lambda>i. [SetStatus (page_status (status_init (target a)) i
                                          (length (pages a))),
                              CallGemini (dataUrl (pages a ! i)) (target a),
                              GeminiReturned (r i)]) [0..<length (pages a)]) @
           [SetStatus status_finalizing,
            SetConversionResult (assemble (target a) (map r [0..<length (pages a)]))] @
           fst (triggerDownload v w (target a)
                  (assemble (target a) (map r [0..<length (pages a)])) f) @
           [SetStatus status_complete] \<and>
         progress (status_init (target a)) = 5 \<and>
         (\<forall>i. progress (page_status (status_init (target a)) i (length (pages a))) =
                5 + \<lfloor>fl64 (fl64 (of_nat i / of_nat (length (pages a))) * 85)\<rfloor>) \<and>
         (length (pages a) \<le> 10 \<longrightarrow>
            (\<forall>i<length (pages a).
               progress (page_status (status_init (target a)) i (length (pages a))) =
                 5 + \<lfloor>(of_nat i / of_nat (length (pages a)) :: rat) * 85\<rfloor>)) \<and>
         (pages a = selected_pages sf \<longrightarrow>
            (\<forall>i<length (pages a).
               progress (page_status (status_init (target a)) i (length (pages a))) =
                 5 + \<lfloor>(of_nat i / of_nat (length (pages a)) :: rat) * 85\<rfloor>)) \<and>
         progress status_finalizing = 95 \<and> progress status_complete = 100 \<and>
         progress_values (snd (startConversion v w a)) =
           5 # map (\<lambda>i. 5 + \<lfloor>fl64 (fl64 (of_nat i / of_nat (length (pages a))) * 85)\<rfloor>)
                 [0..<length (pages a)] @ [95, 100] \<and>
         sorted (progress_values (snd (startConversion v w a))) \<and>
         last (progress_values (snd (startConversion v w a))) = 100 \<and>
         progress (status (fst (startConversion v w a))) = 100"
proof -
  let ?n = "length (pages a)"
  let ?d = "assemble (target a) (map r [0..<?n])"
  obtain st tail where run: "startConversion v w a =
      (a\<lparr>status := st, conversionResult := Some ?d\<rparr>,
       SetStatus (status_init (target a)) #
       concat (map (page_events (pages a) (target a) (status_init (target a)) r) [0..<?n]) @
       [SetStatus status_finalizing, SetConversionResult ?d] @
       fst (triggerDownload v w (target a) ?d f) @ tail)"
    and fin: "snd (triggerDownload v w (target a) ?d f) = None \<longrightarrow>
      st = status_complete \<and> tail = [SetStatus status_complete]"
    using startConversion_success_state [OF assms(1-3)] by blast
  from fin assms(4) have st: "st = status_complete" and tail: "tail = [SetStatus status_complete]"
    by simp_all
  have tr: "snd (startConversion v w a) =
      SetStatus (status_init (target a)) #
      concat (map (\<lambda>i. [SetStatus (page_status (status_init (target a)) i ?n),
                         CallGemini (dataUrl (pages a ! i)) (target a),
                         GeminiReturned (r i)]) [0..<?n]) @
      [SetStatus status_finalizing, SetConversionResult ?d] @
      fst (triggerDownload v w (target a) ?d f) @ [SetStatus status_complete]"
    using run tail by (simp add: page_events_def [abs_def])
  have vals: "progress_values (snd (startConversion v w a)) =
      5 # map (\<lambda>i. page_progress i ?n) [0..<?n] @ [95, 100]"
    by (simp add: run tail progress_values_def progress_page_events triggerDownload_events
        progress_page_status status_init_def status_finalizing_def status_complete_def)
  have "sorted (5 # map (\<lambda>i. page_progress i ?n) [0..<?n] @ [95, 100])"
    using sorted_page_progress [of ?n] page_progress_bounds [of _ ?n]
    by (fastforce simp: sorted_append)
  with vals have sorted: "sorted (progress_values (snd (startConversion v w a)))"
    by simp
  have exact: "?n \<le> 10 \<longrightarrow>
      (\<forall>i<?n. progress (page_status (status_init (target a)) i ?n) =
         5 + \<lfloor>(of_nat i / of_nat ?n :: rat) * 85\<rfloor>)"
    by (simp add: progress_page_status page_progress_exact_up_to_cap)
  have selected: "pages a = selected_pages sf \<longrightarrow>
      (\<forall>i<?n. progress (page_status (status_init (target a)) i ?n) =
         5 + \<lfloor>(of_nat i / of_nat ?n :: rat) * 85\<rfloor>)"
  proof
    assume "pages a = selected_pages sf"
    then have "?n \<le> 10" using selected_pages_cap [of sf] by simp
    with exact show "\<forall>i<?n. progress (page_status (status_init (target a)) i ?n) =
        5 + \<lfloor>(of_nat i / of_nat ?n :: rat) * 85\<rfloor>"
      by blast
  qed
  have rest: "progress (status_init (target a)) = 5"
    "\<forall>i. progress (page_status (status_init (target a)) i ?n) =
       5 + \<lfloor>fl64 (fl64 (of_nat i / of_nat ?n) * 85)\<rfloor>"
    "progress status_finalizing = 95" "progress status_complete = 100"
    "progress_values (snd (startConversion v w a)) =
       5 # map (\<lambda>i. 5 + \<lfloor>fl64 (fl64 (of_nat i / of_nat ?n) * 85)\<rfloor>) [0..<?n] @ [95, 100]"
    "last (progress_values (snd (startConversion v w a))) = 100"
    "progress (status (fst (startConversion v w a))) = 100"
    using vals
    by (simp_all add: run st progress_page_status page_progress_def status_init_def
        status_finalizing_def status_complete_def)
  from tr rest(1,2) exact selected rest(3,4,5) sorted rest(6,7) show ?thesis
    by (intro conjI)
qed

theorem C7_progress_witness:
  "progress_values (snd (startConversion App_tsx example_world (example_app three_pages))) =
     [5, 5, 33, 61, 95, 100] \<and>
   sorted (progress_values (snd (startConversion App_tsx example_world (example_app three_pages))))"
proof -
  let ?a = "example_app three_pages"
  let ?r = "\<lambda>j. js ''text of '' @ dataUrl (three_pages ! j)"
  have h1: "file_name ?a = Some (js ''doc.pdf'')" and h2: "pages ?a \<noteq> []"
    by (simp_all add: example_app_simps three_pages_simps)
  have h3: "\<forall>j<length (pages ?a).
      processPageWithGemini example_world j (dataUrl (pages ?a ! j)) (target ?a) = Inr (?r j)"
    by (simp add: example_app_simps example_world_returns)
  have h4: "snd (triggerDownload App_tsx example_world (target ?a)
      (assemble (target ?a) (map ?r [0..<length (pages ?a)])) (js ''doc.pdf'')) = None"
    by (simp add: triggerDownload_def example_world_def example_app_simps)
  note run = C7_progress [OF h1 h2 h3 h4]
  have f1: "\<lfloor>85 / 3 :: rat\<rfloor> = 28" by (simp add: floor_unique)
  have f2: "\<lfloor>170 / 3 :: rat\<rfloor> = 56" by (simp add: floor_unique)
  have "map (\<lambda>i. page_progress i 3) [0..<3] =
      map (\<lambda>i. 5 + \<lfloor>(of_nat i / of_nat 3 :: rat) * 85\<rfloor>) [0..<3]"
    by (rule map_cong) (simp_all add: page_progress_exact_up_to_cap)
  also have "\<dots> = [5, 33, 61]"
    by (simp add: upt_rec f1 f2)
  finally have vals: "map (\<lambda>i. 5 + \<lfloor>fl64 (fl64 (of_nat i / of_nat 3) * 85)\<rfloor>) [0..<3] =
      [5, 33, 61]"
    by (simp add: page_progress_def)
  from run have "progress_values (snd (startConversion App_tsx example_world ?a)) =
      5 # map (\<lambda>i. 5 + \<lfloor>fl64 (fl64 (of_nat i / of_nat (length (pages ?a))) * 85)\<rfloor>)
            [0..<length (pages ?a)] @ [95, 100]"
    by (rule conjunct1 [OF conjunct2 [OF conjunct2 [OF conjunct2 [OF conjunct2 [OF conjunct2
        [OF conjunct2 [OF conjunct2]]]]]]])
  then have "progress_values (snd (startConversion App_tsx example_world ?a)) =
      [5, 5, 33, 61, 95, 100]"
    using vals by (simp only: example_app_simps three_pages_simps) simp
  moreover from run have "sorted (progress_values (snd (startConversion App_tsx example_world ?a)))"
    by (rule conjunct1 [OF conjunct2 [OF conjunct2 [OF conjunct2 [OF conjunct2 [OF conjunct2
        [OF conjunct2 [OF conjunct2 [OF conjunct2]]]]]]]])
  ultimately show ?thesis by (rule conjI)
qed

end
